theory Spec2Isabelle
  imports Main "HOL-Library.Word"
begin

unbundle bit_operations_syntax

section \<open>ML-DSA (FIPS 204): shallow embedding of the Go implementation\<close>

text \<open>
  Machine integers are modelled as words: \<open>byte\<close> is \<open>8 word\<close>, \<open>uint32\<close> and
  \<open>int32\<close> are \<open>32 word\<close> (read with \<open>unat\<close> resp. \<open>sint\<close>), \<open>uint64\<close> is
  \<open>64 word\<close>. Fixed-size arrays are lists; a polynomial is a list of 256 field elements.
\<close>

type_synonym byte = "8 word"
type_synonym fieldElement = "32 word"
type_synonym ringElement = "fieldElement list"
type_synonym nttElement = "fieldElement list"

subsection \<open>Global constants\<close>

definition n :: nat where "n = 256"
definition q :: "32 word" where "q = 8380417"
definition d :: nat where "d = 13"
definition qMinus1Div2 :: "32 word" where "qMinus1Div2 = 4190208"
definition gamma2QMinus1Div88 :: "32 word" where "gamma2QMinus1Div88 = 95232"
definition gamma2QMinus1Div32 :: "32 word" where "gamma2QMinus1Div32 = 261888"

subsection \<open>Field arithmetic (Montgomery form)\<close>

definition qNegInv :: "32 word" where "qNegInv = 4236238847"
definition montR :: "32 word" where "montR = 4193792"
definition invN :: "32 word" where "invN = 41978"

text \<open>\<open>fieldReduceOnce\<close>: \<open>x := a - q; x += (x >> 31) * q\<close> on \<open>uint32\<close>.\<close>

definition fieldReduceOnce :: "32 word \<Rightarrow> fieldElement" where
  "fieldReduceOnce a = (let x = a - q in x + (drop_bit 31 x) * q)"

definition fieldAdd :: "fieldElement \<Rightarrow> fieldElement \<Rightarrow> fieldElement" where
  "fieldAdd a b = fieldReduceOnce (a + b)"

definition fieldSub :: "fieldElement \<Rightarrow> fieldElement \<Rightarrow> fieldElement" where
  "fieldSub a b = fieldReduceOnce (a - b + q)"

text \<open>\<open>fieldReduce\<close>: \<open>t := uint32(a) * qNegInv\<close>, then
  \<open>fieldReduceOnce(uint32((a + uint64(t)*q) >> 32))\<close>.\<close>

definition fieldReduce :: "64 word \<Rightarrow> fieldElement" where
  "fieldReduce a =
     (let t = (ucast a :: 32 word) * qNegInv
      in fieldReduceOnce (ucast (drop_bit 32 (a + (ucast t :: 64 word) * ucast q))))"

definition fieldMul :: "fieldElement \<Rightarrow> fieldElement \<Rightarrow> fieldElement" where
  "fieldMul a b = fieldReduce ((ucast a :: 64 word) * ucast b)"

subsection \<open>Compression: HighBits, Decompose, MakeHint, UseHint\<close>

text \<open>\<open>highBits\<close> works on \<open>int32\<close> after the first shift: \<open>>>\<close> on \<open>int32\<close> is the
  arithmetic shift \<open>signed_drop_bit\<close>.\<close>

definition highBits :: "fieldElement \<Rightarrow> 32 word \<Rightarrow> 32 word" where
  "highBits r gamma2 =
     (let r1 = drop_bit 7 (r + 127) in
      if gamma2 = gamma2QMinus1Div32 then
        (let r1 = signed_drop_bit 22 (r1 * 1025 + push_bit 21 1) in r1 AND 15)
      else
        (let r1 = signed_drop_bit 24 (r1 * 11275 + push_bit 23 1);
             r1 = r1 XOR ((signed_drop_bit 31 (43 - r1)) AND r1)
         in r1))"

definition decompose :: "fieldElement \<Rightarrow> 32 word \<Rightarrow> 32 word \<times> 32 word" where
  "decompose r gamma2 =
     (let r1 = highBits r gamma2;
          r0 = r - r1 * gamma2 * 2;
          r0 = r0 - ((signed_drop_bit 31 (qMinus1Div2 - r0)) AND q)
      in (r1, r0))"

definition makeHint :: "fieldElement \<Rightarrow> fieldElement \<Rightarrow> 32 word \<Rightarrow> fieldElement" where
  "makeHint z r gamma2 =
     (let r0 = fieldAdd r z in
      if highBits r0 gamma2 \<noteq> highBits r gamma2 then 1 else 0)"

definition useHint :: "fieldElement \<Rightarrow> fieldElement \<Rightarrow> 32 word \<Rightarrow> fieldElement" where
  "useHint hint r gamma2 =
     (let (r1, r0) = decompose r gamma2 in
      if hint = 0 then r1
      else if gamma2 = gamma2QMinus1Div32 then
        (if 0 <s r0 then (r1 + 1) AND 15 else (r1 - 1) AND 15)
      else if 0 <s r0 then (if r1 = 43 then 0 else r1 + 1)
      else if r1 = 0 then 43
      else r1 - 1)"

definition infinityNorm :: "fieldElement \<Rightarrow> 32 word" where
  "infinityNorm a = (if a \<le> qMinus1Div2 then a else q - a)"


subsection \<open>Polynomial ring and NTT\<close>

text \<open>\<open>zetas[k] = 1753^bitrev(k) * R mod q\<close>: the table of the source.\<close>

definition zetas :: "fieldElement list" where
  "zetas =
    [4193792, 25847, 5771523, 7861508, 237124, 7602457, 7504169, 466468,
     1826347, 2353451, 8021166, 6288512, 3119733, 5495562, 3111497, 2680103,
     2725464, 1024112, 7300517, 3585928, 7830929, 7260833, 2619752, 6271868,
     6262231, 4520680, 6980856, 5102745, 1757237, 8360995, 4010497, 280005,
     2706023, 95776, 3077325, 3530437, 6718724, 4788269, 5842901, 3915439,
     4519302, 5336701, 3574422, 5512770, 3539968, 8079950, 2348700, 7841118,
     6681150, 6736599, 3505694, 4558682, 3507263, 6239768, 6779997, 3699596,
     811944, 531354, 954230, 3881043, 3900724, 5823537, 2071892, 5582638,
     4450022, 6851714, 4702672, 5339162, 6927966, 3475950, 2176455, 6795196,
     7122806, 1939314, 4296819, 7380215, 5190273, 5223087, 4747489, 126922,
     3412210, 7396998, 2147896, 2715295, 5412772, 4686924, 7969390, 5903370,
     7709315, 7151892, 8357436, 7072248, 7998430, 1349076, 1852771, 6949987,
     5037034, 264944, 508951, 3097992, 44288, 7280319, 904516, 3958618,
     4656075, 8371839, 1653064, 5130689, 2389356, 8169440, 759969, 7063561,
     189548, 4827145, 3159746, 6529015, 5971092, 8202977, 1315589, 1341330,
     1285669, 6795489, 7567685, 6940675, 5361315, 4499357, 4751448, 3839961,
     2091667, 3407706, 2316500, 3817976, 5037939, 2244091, 5933984, 4817955,
     266997, 2434439, 7144689, 3513181, 4860065, 4621053, 7183191, 5187039,
     900702, 1859098, 909542, 819034, 495491, 6767243, 8337157, 7857917,
     7725090, 5257975, 2031748, 3207046, 4823422, 7855319, 7611795, 4784579,
     342297, 286988, 5942594, 4108315, 3437287, 5038140, 1735879, 203044,
     2842341, 2691481, 5790267, 1265009, 4055324, 1247620, 2486353, 1595974,
     4613401, 1250494, 2635921, 4832145, 5386378, 1869119, 1903435, 7329447,
     7047359, 1237275, 5062207, 6950192, 7929317, 1312455, 3306115, 6417775,
     7100756, 1917081, 5834105, 7005614, 1500165, 777191, 2235880, 3406031,
     7838005, 5548557, 6709241, 6533464, 5796124, 4656147, 594136, 4603424,
     6366809, 2432395, 2454455, 8215696, 1957272, 3369112, 185531, 7173032,
     5196991, 162844, 1616392, 3014001, 810149, 1652634, 4686184, 6581310,
     5341501, 3523897, 3866901, 269760, 2213111, 7404533, 1717735, 472078,
     7953734, 1723600, 6577327, 1910376, 6712985, 7276084, 8119771, 4546524,
     5441381, 6144432, 7959518, 6094090, 183443, 7403526, 1612842, 4834730,
     7826001, 3919660, 8332111, 7018208, 3937738, 1400424, 7534263, 1976782]"

text \<open>\<open>ntt\<close>: the innermost loop works on the slices \<open>fLo = f[start:start+length]\<close> and
  \<open>fHi = f[start+length:start+2*length]\<close>, which alias \<open>f\<close>; the model updates \<open>f\<close> at the
  corresponding indices. The block loops carry the guard \<open>0 < len\<close> (the source only calls
  them with \<open>length \<ge> 1\<close>), which makes the recursion terminate.\<close>

function ntt_inner ::
  "fieldElement \<Rightarrow> nat \<Rightarrow> nat \<Rightarrow> nat \<Rightarrow> ringElement \<Rightarrow> ringElement" where
  "ntt_inner zeta start len j f =
     (if j < len then
        let t = fieldMul zeta (f ! (start + len + j));
            lo = f ! (start + j)
        in ntt_inner zeta start len (j + 1)
             (f[start + len + j := fieldSub lo t, start + j := fieldAdd lo t])
      else f)"
  by pat_completeness auto
termination
  by (relation "measure (\<lambda>(zeta, start, len, j, f). len - j)") auto

function ntt_blocks :: "nat \<Rightarrow> nat \<Rightarrow> nat \<Rightarrow> ringElement \<Rightarrow> nat \<times> ringElement" where
  "ntt_blocks len start k f =
     (if start < n \<and> 0 < len
      then ntt_blocks len (start + 2 * len) (k + 1) (ntt_inner (zetas ! k) start len 0 f)
      else (k, f))"
  by pat_completeness auto
termination
  by (relation "measure (\<lambda>(len, start, k, f). n - start)") auto

function ntt_layers :: "nat \<Rightarrow> nat \<Rightarrow> ringElement \<Rightarrow> ringElement" where
  "ntt_layers len k f =
     (if 1 \<le> len
      then (case ntt_blocks len 0 k f of (k', f') \<Rightarrow> ntt_layers (len div 2) k' f')
      else f)"
  by pat_completeness auto
termination
  by (relation "measure (\<lambda>(len, k, f). len)") auto

definition ntt :: "ringElement \<Rightarrow> nttElement" where
  "ntt f = ntt_layers 128 1 f"

text \<open>\<open>invNTT\<close>: \<open>zeta := q - zetas[k]\<close>, \<open>k--\<close>; then every coefficient is multiplied by
  \<open>invN\<close>.\<close>

function invNTT_inner ::
  "fieldElement \<Rightarrow> nat \<Rightarrow> nat \<Rightarrow> nat \<Rightarrow> nttElement \<Rightarrow> nttElement" where
  "invNTT_inner zeta start len j f =
     (if j < len then
        let t = f ! (start + j);
            hi = f ! (start + len + j)
        in invNTT_inner zeta start len (j + 1)
             (f[start + j := fieldAdd t hi, start + len + j := fieldMul zeta (fieldSub t hi)])
      else f)"
  by pat_completeness auto
termination
  by (relation "measure (\<lambda>(zeta, start, len, j, f). len - j)") auto

function invNTT_blocks :: "nat \<Rightarrow> nat \<Rightarrow> nat \<Rightarrow> nttElement \<Rightarrow> nat \<times> nttElement" where
  "invNTT_blocks len start k f =
     (if start < n \<and> 0 < len
      then invNTT_blocks len (start + 2 * len) (k - 1)
             (invNTT_inner (q - zetas ! k) start len 0 f)
      else (k, f))"
  by pat_completeness auto
termination
  by (relation "measure (\<lambda>(len, start, k, f). n - start)") auto

function invNTT_layers :: "nat \<Rightarrow> nat \<Rightarrow> nttElement \<Rightarrow> nttElement" where
  "invNTT_layers len k f =
     (if len < n \<and> 0 < len
      then (case invNTT_blocks len 0 k f of (k', f') \<Rightarrow> invNTT_layers (len * 2) k' f')
      else f)"
  by pat_completeness auto
termination
  by (relation "measure (\<lambda>(len, k, f). n - len)") auto

definition invNTT :: "nttElement \<Rightarrow> ringElement" where
  "invNTT f = map (\<lambda>x. fieldMul x invN) (invNTT_layers 1 255 f)"

text \<open>Coefficient-wise operations: \<open>for i := range c { c[i] = op(a[i], b[i]) }\<close>.\<close>

definition nttMul :: "nttElement \<Rightarrow> nttElement \<Rightarrow> nttElement" where
  "nttMul a b = map (\<lambda>i. fieldMul (a ! i) (b ! i)) [0..<n]"

definition polyAdd :: "fieldElement list \<Rightarrow> fieldElement list \<Rightarrow> fieldElement list" where
  "polyAdd a b = map (\<lambda>i. fieldAdd (a ! i) (b ! i)) [0..<n]"

definition polySub :: "fieldElement list \<Rightarrow> fieldElement list \<Rightarrow> fieldElement list" where
  "polySub a b = map (\<lambda>i. fieldSub (a ! i) (b ! i)) [0..<n]"

declare ntt_inner.simps [simp del] ntt_blocks.simps [simp del] ntt_layers.simps [simp del]
  invNTT_inner.simps [simp del] invNTT_blocks.simps [simp del] invNTT_layers.simps [simp del]


subsection \<open>Errors\<close>

text \<open>The error values of the package (one per \<open>errors.New\<close> message), and the run-time
  panic of an out-of-range slice or index expression.\<close>

datatype error =
    InvalidSeedLength
  | InvalidPublicKeyLength
  | InvalidPrivateKeyLength
  | InvalidEtaEncoding
  | ContextTooLong
  | IndexOutOfRange

subsection \<open>Codec: \<open>unpackEta2\<close>, \<open>unpackEta4\<close>\<close>

text \<open>Inner loop \<open>for j := 0; j < 8; j++ { f[i+j] = fieldSub(c, (x >> (w*j)) & m) }\<close>.\<close>

function unpackEta_coeffs ::
  "fieldElement \<Rightarrow> nat \<Rightarrow> 32 word \<Rightarrow> 32 word \<Rightarrow> nat \<Rightarrow> nat \<Rightarrow> ringElement \<Rightarrow> ringElement" where
  "unpackEta_coeffs c w m x i j f =
     (if j < 8
      then unpackEta_coeffs c w m x i (j + 1) (f[i + j := fieldSub c (drop_bit (w * j) x AND m)])
      else f)"
  by pat_completeness auto
termination
  by (relation "measure (\<lambda>(c, w, m, x, i, j, f). 8 - j)") auto

text \<open>\<open>unpackEta2\<close>: three bytes per group of eight coefficients; \<open>0o44444444 = 9586980\<close>.
  Reading \<open>b[0..2]\<close> of a slice shorter than three bytes panics.\<close>

function unpackEta2_loop :: "nat \<Rightarrow> byte list \<Rightarrow> ringElement \<Rightarrow> error + ringElement" where
  "unpackEta2_loop i b f =
     (if i < n then
        (if length b < 3 then Inl IndexOutOfRange
         else
           let x = (ucast (b ! 0) :: 32 word) OR push_bit 8 (ucast (b ! 1))
                     OR push_bit 16 (ucast (b ! 2));
               msbs = x AND 9586980;
               mask = drop_bit 1 msbs OR drop_bit 2 msbs
           in if mask AND x \<noteq> 0 then Inl InvalidEtaEncoding
              else unpackEta2_loop (i + 8) (drop 3 b) (unpackEta_coeffs 2 3 7 x i 0 f))
      else Inr f)"
  by pat_completeness auto
termination
  by (relation "measure (\<lambda>(i, b, f). n - i)") (auto simp: n_def)

definition unpackEta2 :: "byte list \<Rightarrow> error + ringElement" where
  "unpackEta2 b = unpackEta2_loop 0 b (replicate n 0)"

text \<open>\<open>unpackEta4\<close>: four bytes per group of eight coefficients; \<open>0x88888888 = 2290649224\<close>.\<close>

function unpackEta4_loop :: "nat \<Rightarrow> byte list \<Rightarrow> ringElement \<Rightarrow> error + ringElement" where
  "unpackEta4_loop i b f =
     (if i < n then
        (if length b < 4 then Inl IndexOutOfRange
         else
           let x = (ucast (b ! 0) :: 32 word) OR push_bit 8 (ucast (b ! 1))
                     OR push_bit 16 (ucast (b ! 2)) OR push_bit 24 (ucast (b ! 3));
               msbs = x AND 2290649224;
               mask = drop_bit 1 msbs OR drop_bit 2 msbs OR drop_bit 3 msbs
           in if mask AND x \<noteq> 0 then Inl InvalidEtaEncoding
              else unpackEta4_loop (i + 8) (drop 4 b) (unpackEta_coeffs 4 4 15 x i 0 f))
      else Inr f)"
  by pat_completeness auto
termination
  by (relation "measure (\<lambda>(i, b, f). n - i)") (auto simp: n_def)

definition unpackEta4 :: "byte list \<Rightarrow> error + ringElement" where
  "unpackEta4 b = unpackEta4_loop 0 b (replicate n 0)"


declare unpackEta_coeffs.simps [simp del] unpackEta2_loop.simps [simp del] unpackEta4_loop.simps [simp del]

subsection \<open>Codec: the hint vector\<close>

text \<open>\<open>countOnes\<close>: the number of non-zero coefficients of a vector of polynomials.\<close>

function countOnes_row :: "ringElement \<Rightarrow> nat \<Rightarrow> nat \<Rightarrow> nat" where
  "countOnes_row row j count =
     (if j < length row
      then countOnes_row row (j + 1) (if row ! j \<noteq> 0 then count + 1 else count)
      else count)"
  by pat_completeness auto
termination
  by (relation "measure (\<lambda>(row, j, count). length row - j)") auto

function countOnes_rows :: "ringElement list \<Rightarrow> nat \<Rightarrow> nat \<Rightarrow> nat" where
  "countOnes_rows v i count =
     (if i < length v
      then countOnes_rows v (i + 1) (countOnes_row (v ! i) 0 count)
      else count)"
  by pat_completeness auto
termination
  by (relation "measure (\<lambda>(v, i, count). length v - i)") auto

definition countOnes :: "ringElement list \<Rightarrow> nat" where
  "countOnes v = countOnes_rows v 0 0"

text \<open>\<open>packHint\<close>. The buffer has \<open>omega + k\<close> bytes; \<open>b[idx] = byte(j)\<close> panics when
  \<open>idx\<close> runs past the end of the buffer. \<open>b[omega+i]\<close> is always inside the buffer.\<close>

function packHint_row ::
  "ringElement \<Rightarrow> nat \<Rightarrow> byte list \<Rightarrow> nat \<Rightarrow> error + (byte list \<times> nat)" where
  "packHint_row row j b idx =
     (if j < n then
        (if row ! j \<noteq> 0 then
           (if idx < length b
            then packHint_row row (j + 1) (b[idx := of_nat j]) (idx + 1)
            else Inl IndexOutOfRange)
         else packHint_row row (j + 1) b idx)
      else Inr (b, idx))"
  by pat_completeness auto
termination
  by (relation "measure (\<lambda>(row, j, b, idx). n - j)") auto

function packHint_rows ::
  "ringElement list \<Rightarrow> nat \<Rightarrow> nat \<Rightarrow> nat \<Rightarrow> byte list \<Rightarrow> nat \<Rightarrow> error + byte list" where
  "packHint_rows hints omega k i b idx =
     (if i < k then
        (case packHint_row (hints ! i) 0 b idx of
           Inl e \<Rightarrow> Inl e
         | Inr (b', idx') \<Rightarrow>
             packHint_rows hints omega k (i + 1) (b'[omega + i := of_nat idx']) idx')
      else Inr b)"
  by pat_completeness auto
termination
  by (relation "measure (\<lambda>(hints, omega, k, i, b, idx). k - i)") auto

definition packHint :: "ringElement list \<Rightarrow> nat \<Rightarrow> error + byte list" where
  "packHint hints omega =
     (let k = length hints
      in packHint_rows hints omega k 0 (replicate (omega + k) 0) 0)"

text \<open>\<open>unpackHint\<close> (with \<open>k := len(hints)\<close> passed to the row loop) writes into the caller's \<open>hints\<close> and returns a boolean; the model returns
  both. The inner loop returns \<open>(False, _, _)\<close> for the early \<open>return false\<close>. Reading
  \<open>b[omega+i]\<close> or \<open>b[idx]\<close> outside the slice panics.\<close>

function unpackHint_row ::
  "byte list \<Rightarrow> nat \<Rightarrow> nat \<Rightarrow> nat \<Rightarrow> nat \<Rightarrow> ringElement list
     \<Rightarrow> error + (bool \<times> nat \<times> ringElement list)" where
  "unpackHint_row b i prev limit idx hints =
     (if idx < limit then
        (if length b \<le> idx then Inl IndexOutOfRange
         else
           let pos = b ! idx in
           if prev < idx \<and> pos \<le> b ! (idx - 1) then Inr (False, idx, hints)
           else unpackHint_row b i prev limit (idx + 1)
                  (hints[i := (hints ! i)[unat pos := 1]]))
      else Inr (True, idx, hints))"
  by pat_completeness auto
termination
  by (relation "measure (\<lambda>(b, i, prev, limit, idx, hints). limit - idx)") auto

function unpackHint_rows ::
  "byte list \<Rightarrow> nat \<Rightarrow> nat \<Rightarrow> nat \<Rightarrow> nat \<Rightarrow> ringElement list
     \<Rightarrow> error + (bool \<times> nat \<times> ringElement list)" where
  "unpackHint_rows b omega k i idx hints =
     (if i < k then
        (if length b \<le> omega + i then Inl IndexOutOfRange
         else
           let limit = unat (b ! (omega + i)) in
           if limit < idx \<or> omega < limit then Inr (False, idx, hints)
           else
             (case unpackHint_row b i idx limit idx hints of
                Inl e \<Rightarrow> Inl e
              | Inr (ok, idx', hints') \<Rightarrow>
                  if ok then unpackHint_rows b omega k (i + 1) idx' hints'
                  else Inr (False, idx', hints')))
      else Inr (True, idx, hints))"
  by pat_completeness auto
termination
  by (relation "measure (\<lambda>(b, omega, k, i, idx, hints). k - i)") auto

function unpackHint_rest :: "byte list \<Rightarrow> nat \<Rightarrow> nat \<Rightarrow> error + bool" where
  "unpackHint_rest b omega idx =
     (if idx < omega then
        (if length b \<le> idx then Inl IndexOutOfRange
         else if b ! idx \<noteq> 0 then Inr False
         else unpackHint_rest b omega (idx + 1))
      else Inr True)"
  by pat_completeness auto
termination
  by (relation "measure (\<lambda>(b, omega, idx). omega - idx)") auto

definition unpackHint ::
  "byte list \<Rightarrow> ringElement list \<Rightarrow> nat \<Rightarrow> error + (bool \<times> ringElement list)" where
  "unpackHint b hints omega =
     (case unpackHint_rows b omega (length hints) 0 0 hints of
        Inl e \<Rightarrow> Inl e
      | Inr (ok, idx, hints') \<Rightarrow>
          if ok then
            (case unpackHint_rest b omega idx of
               Inl e \<Rightarrow> Inl e
             | Inr r \<Rightarrow> Inr (r, hints'))
          else Inr (False, hints'))"

declare countOnes_row.simps [simp del] countOnes_rows.simps [simp del]
  packHint_row.simps [simp del] packHint_rows.simps [simp del]
  unpackHint_row.simps [simp del] unpackHint_rows.simps [simp del] unpackHint_rest.simps [simp del]


subsection \<open>SHAKE\<close>

text \<open>The extendable-output functions of \<open>crypto/sha3\<close> are outside the package. An
  \<open>xof\<close> maps the absorbed input to its output stream; a \<open>shake\<close> is the state of a
  hash after its last \<open>Write\<close>: the output stream and the number of bytes already
  read. \<open>h.Read(buf[:])\<close> returns the next \<open>len(buf)\<close> bytes of the stream.\<close>

type_synonym xof = "byte list \<Rightarrow> nat \<Rightarrow> byte"
type_synonym shake = "(nat \<Rightarrow> byte) \<times> nat"

definition shake_read :: "shake \<Rightarrow> nat \<Rightarrow> byte list \<times> shake" where
  "shake_read h len = (map (\<lambda>i. fst h (snd h + i)) [0..<len], (fst h, snd h + len))"

subsection \<open>Sampling: \<open>sampleChallenge\<close>\<close>

text \<open>The sign bits: \<open>signs |= uint64(buf[i]) << (8 * i)\<close> for \<open>i = 0..7\<close>.\<close>

definition sampleChallenge_signs :: "byte list \<Rightarrow> 64 word" where
  "sampleChallenge_signs buf =
     foldl (\<lambda>signs i. signs OR push_bit (8 * i) (ucast (buf ! i))) 0 [0..<8]"

text \<open>The rejection loop \<open>for { ... if int(j) <= i { break } }\<close>: it refills the buffer
  when \<open>offset >= len(buf)\<close> and ends at the first byte that is at most \<open>i\<close>; it
  does not end when the stream has no such byte.\<close>

partial_function (option) sampleChallenge_j ::
  "shake \<Rightarrow> byte list \<Rightarrow> nat \<Rightarrow> nat \<Rightarrow> (byte \<times> shake \<times> byte list \<times> nat) option" where
  "sampleChallenge_j h buf offset i =
     (let (buf1, h1, offset1) =
            (if length buf \<le> offset then (case shake_read h 136 of (b, h') \<Rightarrow> (b, h', 0))
             else (buf, h, offset));
          j = buf1 ! offset1
      in if unat j \<le> i then Some (j, h1, buf1, offset1 + 1)
         else sampleChallenge_j h1 buf1 (offset1 + 1) i)"

text \<open>The loop \<open>for i := n - tau; i < n; i++\<close>.\<close>

function sampleChallenge_loop ::
  "shake \<Rightarrow> byte list \<Rightarrow> nat \<Rightarrow> 64 word \<Rightarrow> ringElement \<Rightarrow> nat \<Rightarrow> ringElement option" where
  "sampleChallenge_loop h buf offset signs c i =
     (if i < n then
        (case sampleChallenge_j h buf offset i of
           None \<Rightarrow> None
         | Some (j, h', buf', offset') \<Rightarrow>
             sampleChallenge_loop h' buf' offset' (drop_bit 1 signs)
               ((c[i := c ! unat j])[unat j := (if signs AND 1 = 0 then 1 else q - 1)]) (i + 1))
      else Some c)"
  by pat_completeness auto
termination
  by (relation "measure (\<lambda>(h, buf, offset, signs, c, i). n - i)") auto

text \<open>\<open>sampleChallenge\<close>. With \<open>tau > n\<close> the first \<open>i\<close> is negative and the rejection
  loop never ends.\<close>

definition sampleChallenge :: "xof \<Rightarrow> byte list \<Rightarrow> nat \<Rightarrow> ringElement option" where
  "sampleChallenge shake256 seed tau =
     (if n < tau then None
      else
        let h = (shake256 seed, 0);
            (buf, h) = shake_read h 136;
            signs = sampleChallenge_signs buf
        in sampleChallenge_loop h buf 8 signs (replicate n 0) (n - tau))"

declare sampleChallenge_loop.simps [simp del]


subsection \<open>Parameters\<close>

definition gamma1Pow17 :: "32 word" where "gamma1Pow17 = 131072"
definition gamma1Pow19 :: "32 word" where "gamma1Pow19 = 524288"
definition tau39 :: nat where "tau39 = 39"
definition tau49 :: nat where "tau49 = 49"
definition omega80 :: nat where "omega80 = 80"
definition omega55 :: nat where "omega55 = 55"
definition k44 :: nat where "k44 = 4"
definition l44 :: nat where "l44 = 4"
definition beta44 :: "32 word" where "beta44 = 78"
definition PublicKeySize44 :: nat where "PublicKeySize44 = 1312"
definition SignatureSize44 :: nat where "SignatureSize44 = 2420"
definition encodingSize4 :: nat where "encodingSize4 = 128"
definition encodingSize6 :: nat where "encodingSize6 = 192"
definition encodingSize10 :: nat where "encodingSize10 = 320"
definition encodingSize18 :: nat where "encodingSize18 = 576"
definition encodingSize20 :: nat where "encodingSize20 = 640"

subsection \<open>Slices\<close>

text \<open>The slice expression \<open>b[lo:hi]\<close> panics unless \<open>lo \<le> hi \<le> cap(b)\<close>; the model takes
  the capacity of a byte slice to be its length. \<open>b[lo:]\<close> is \<open>b[lo:len(b)]\<close>.\<close>

definition slice :: "byte list \<Rightarrow> nat \<Rightarrow> nat \<Rightarrow> error + byte list" where
  "slice b lo hi = (if lo \<le> hi \<and> hi \<le> length b then Inr (take (hi - lo) (drop lo b))
                    else Inl IndexOutOfRange)"

subsection \<open>Norms\<close>

text \<open>\<open>for i := range f { v := infinityNorm(f[i]); if v > max { max = v } }\<close>.\<close>

definition polyInfinityNorm :: "ringElement \<Rightarrow> 32 word" where
  "polyInfinityNorm f =
     foldl (\<lambda>max x. let v = infinityNorm x in if max < v then v else max) 0 f"

definition vectorInfinityNorm :: "ringElement list \<Rightarrow> 32 word" where
  "vectorInfinityNorm v =
     foldl (\<lambda>max f. let norm = polyInfinityNorm f in if max < norm then norm else max) 0 v"

subsection \<open>Codec: \<open>unpackZ17Sig\<close>, \<open>packW1_6\<close>\<close>

text \<open>\<open>unpackZ17Sig\<close>: nine bytes per group of four coefficients, \<open>mask = 2^18 - 1\<close>.
  Reading \<open>b[0..8]\<close> of a slice shorter than nine bytes panics.\<close>

function unpackZ17Sig_loop :: "nat \<Rightarrow> byte list \<Rightarrow> ringElement \<Rightarrow> error + ringElement" where
  "unpackZ17Sig_loop i b f =
     (if i < n then
        (if length b < 9 then Inl IndexOutOfRange
         else
           let x1 = (ucast (b ! 0) :: 64 word) OR push_bit 8 (ucast (b ! 1))
                      OR push_bit 16 (ucast (b ! 2)) OR push_bit 24 (ucast (b ! 3))
                      OR push_bit 32 (ucast (b ! 4)) OR push_bit 40 (ucast (b ! 5))
                      OR push_bit 48 (ucast (b ! 6)) OR push_bit 56 (ucast (b ! 7));
               x2 = (ucast (b ! 8) :: 64 word);
               f = f[i := fieldSub 131072 (ucast (x1 AND 262143))];
               f = f[i + 1 := fieldSub 131072 (ucast (drop_bit 18 x1 AND 262143))];
               f = f[i + 2 := fieldSub 131072 (ucast (drop_bit 36 x1 AND 262143))];
               f = f[i + 3 := fieldSub 131072 (ucast ((drop_bit 54 x1 OR push_bit 10 x2) AND 262143))]
           in unpackZ17Sig_loop (i + 4) (drop 9 b) f)
      else Inr f)"
  by pat_completeness auto
termination
  by (relation "measure (\<lambda>(i, b, f). n - i)") (auto simp: n_def)

definition unpackZ17Sig :: "byte list \<Rightarrow> error + ringElement" where
  "unpackZ17Sig b = unpackZ17Sig_loop 0 b (replicate n 0)"

text \<open>\<open>packW1_6\<close>: four 6-bit coefficients in three bytes.\<close>

function packW1_6_loop :: "nat \<Rightarrow> ringElement \<Rightarrow> byte list \<Rightarrow> byte list" where
  "packW1_6_loop i f b =
     (if i < n then
        let x = f ! i OR push_bit 6 (f ! (i + 1)) OR push_bit 12 (f ! (i + 2))
                  OR push_bit 18 (f ! (i + 3));
            b = b[i div 4 * 3 := ucast x];
            b = b[i div 4 * 3 + 1 := ucast (drop_bit 8 x)];
            b = b[i div 4 * 3 + 2 := ucast (drop_bit 16 x)]
        in packW1_6_loop (i + 4) f b
      else b)"
  by pat_completeness auto
termination
  by (relation "measure (\<lambda>(i, f, b). n - i)") (auto simp: n_def)

definition packW1_6 :: "ringElement \<Rightarrow> byte list" where
  "packW1_6 f = packW1_6_loop 0 f (replicate encodingSize6 0)"

subsection \<open>ML-DSA-44: the public key and \<open>Verify\<close>\<close>

record PublicKey44 =
  pk44_rho :: "byte list"
  pk44_t1 :: "ringElement list"
  pk44_tr :: "byte list"
  pk44_a :: "nttElement list"

text \<open>The loop \<open>for i := 0; i < l44; i++ { z[i] = unpackZ17Sig(sig[offset : offset+encodingSize18]);
  offset += encodingSize18 }\<close>.\<close>

function verifyInternal44_z ::
  "byte list \<Rightarrow> nat \<Rightarrow> nat \<Rightarrow> ringElement list \<Rightarrow> error + (ringElement list \<times> nat)" where
  "verifyInternal44_z sig i offset z =
     (if i < l44 then
        (case slice sig offset (offset + encodingSize18) of
           Inl e \<Rightarrow> Inl e
         | Inr s \<Rightarrow>
            (case unpackZ17Sig s of
               Inl e \<Rightarrow> Inl e
             | Inr f \<Rightarrow> verifyInternal44_z sig (i + 1) (offset + encodingSize18) (z[i := f])))
      else Inr (z, offset))"
  by pat_completeness auto
termination
  by (relation "measure (\<lambda>(sig, i, offset, z). l44 - i)") auto

text \<open>Row \<open>i\<close> of \<open>w1\<close>: \<open>acc\<close> sums \<open>nttMul(pk.a[i*l44+j], zNTT[j])\<close> over \<open>j\<close>, then
  \<open>wApprox := invNTT(polySub(acc, nttMul(cNTT, t1NTT[i])))\<close> and
  \<open>w1[i][j] = useHint(hints[i][j], wApprox[j], gamma2QMinus1Div88)\<close>.\<close>

definition verifyInternal44_w1 ::
  "PublicKey44 \<Rightarrow> nttElement \<Rightarrow> nttElement list \<Rightarrow> nttElement list \<Rightarrow> ringElement list
     \<Rightarrow> nat \<Rightarrow> ringElement" where
  "verifyInternal44_w1 pk cNTT zNTT t1NTT hints i =
     (let acc = foldl (\<lambda>acc j. polyAdd acc (nttMul (pk44_a pk ! (i * l44 + j)) (zNTT ! j)))
                  (replicate n 0) [0..<l44];
          ct1 = nttMul cNTT (t1NTT ! i);
          acc = polySub acc ct1;
          wApprox = invNTT acc
      in map (\<lambda>j. useHint (hints ! i ! j) (wApprox ! j) gamma2QMinus1Div88) [0..<n])"

text \<open>\<open>verifyInternal\<close>. The result is \<open>None\<close> when \<open>sampleChallenge\<close> does not return,
  \<open>Some (Inl e)\<close> for a panic and \<open>Some (Inr r)\<close> for the boolean \<open>r\<close>.\<close>

definition verifyInternal44 ::
  "xof \<Rightarrow> PublicKey44 \<Rightarrow> byte list \<Rightarrow> byte list \<Rightarrow> (error + bool) option" where
  "verifyInternal44 shake256 pk sig mPrime =
     (let mu = map (shake256 (pk44_tr pk @ mPrime)) [0..<64] in
      case slice sig 0 32 of
        Inl e \<Rightarrow> Some (Inl e)
      | Inr cTilde \<Rightarrow>
      (case verifyInternal44_z sig 0 32 (replicate l44 (replicate n 0)) of
        Inl e \<Rightarrow> Some (Inl e)
      | Inr (z, offset) \<Rightarrow>
      if gamma1Pow17 - beta44 \<le> vectorInfinityNorm z then Some (Inr False)
      else
      (case slice sig offset (length sig) of
        Inl e \<Rightarrow> Some (Inl e)
      | Inr hb \<Rightarrow>
      (case unpackHint hb (replicate k44 (replicate n 0)) omega80 of
        Inl e \<Rightarrow> Some (Inl e)
      | Inr (ok, hints) \<Rightarrow>
      if \<not> ok then Some (Inr False)
      else
      (case sampleChallenge shake256 cTilde tau39 of
        None \<Rightarrow> None
      | Some c \<Rightarrow>
         let cNTT = ntt c;
             zNTT = map ntt z;
             t1NTT = map (\<lambda>t1. ntt (map (\<lambda>x. push_bit d x) t1)) (pk44_t1 pk);
             w1 = map (verifyInternal44_w1 pk cNTT zNTT t1NTT hints) [0..<k44];
             cTildeCheck = map (shake256 (mu @ concat (map packW1_6 w1))) [0..<32];
             diff = foldl (\<lambda>diff i. diff OR (cTilde ! i XOR cTildeCheck ! i)) (0 :: byte)
                      [0..<length cTilde]
         in Some (Inr (diff = 0)))))))"

text \<open>\<open>Verify\<close>: \<open>M' = 0 || len(ctx) || ctx || msg\<close>.\<close>

definition Verify44 ::
  "xof \<Rightarrow> PublicKey44 \<Rightarrow> byte list \<Rightarrow> byte list \<Rightarrow> byte list \<Rightarrow> (error + bool) option" where
  "Verify44 shake256 pk sig message context =
     (if length sig \<noteq> SignatureSize44 then Some (Inr False)
      else if 255 < length context then Some (Inr False)
      else verifyInternal44 shake256 pk sig
             ([0, of_nat (length context)] @ context @ message))"

declare unpackZ17Sig_loop.simps [simp del] packW1_6_loop.simps [simp del]
  verifyInternal44_z.simps [simp del]


subsection \<open>Closed forms used in the proofs\<close>

text \<open>\<open>hb_v g R\<close> is the index of the interval of width \<open>2g\<close> around a multiple of \<open>2g\<close>
  that contains \<open>R\<close>, before it is wrapped modulo \<open>m = (q-1)/(2g)\<close>; \<open>r0_v\<close> is the
  signed low part that goes with it.\<close>

definition hb_v :: "int \<Rightarrow> int \<Rightarrow> int" where
  "hb_v g R = (R + g - 1) div (2 * g)"

definition r0_v :: "int \<Rightarrow> int \<Rightarrow> int \<Rightarrow> int" where
  "r0_v g m R = (if hb_v g R = m then R - 8380417 else R - 2 * g * hb_v g R)"

text \<open>Bit \<open>i\<close> of a byte string (little-endian within each byte), and the \<open>k\<close>-th field of
  \<open>w\<close> bits as a number: the meaning of ``the \<open>k\<close>-th \<open>w\<close>-bit coefficient field''.\<close>

definition bit_at :: "byte list \<Rightarrow> nat \<Rightarrow> bool" where
  "bit_at b i = bit (b ! (i div 8)) (i mod 8)"

definition field_at :: "nat \<Rightarrow> byte list \<Rightarrow> nat \<Rightarrow> nat" where
  "field_at w b k = sum_list (map (\<lambda>t. if bit_at b (w * k + t) then 2 ^ t else 0) [0..<w])"

text \<open>A signed integer as a field element: reduced modulo \<open>q\<close>.\<close>

definition fe_of_int :: "int \<Rightarrow> fieldElement" where
  "fe_of_int i = word_of_int (i mod 8380417)"


text \<open>The little-endian word of the first three resp. four bytes of a slice, and the
  coefficient decoded from field \<open>k\<close>.\<close>

definition le24 :: "byte list \<Rightarrow> 32 word" where
  "le24 b = (ucast (b ! 0) :: 32 word) OR push_bit 8 (ucast (b ! 1)) OR push_bit 16 (ucast (b ! 2))"

definition le32 :: "byte list \<Rightarrow> 32 word" where
  "le32 b = (ucast (b ! 0) :: 32 word) OR push_bit 8 (ucast (b ! 1)) OR push_bit 16 (ucast (b ! 2))
      OR push_bit 24 (ucast (b ! 3))"

definition coef_eta :: "fieldElement \<Rightarrow> nat \<Rightarrow> byte list \<Rightarrow> nat \<Rightarrow> fieldElement" where
  "coef_eta c w b k = fieldSub c (of_nat (field_at w b k))"

text \<open>The hint encoding as the specification words it: with \<open>c i\<close> the byte at offset
  \<open>omega + i\<close> (the cumulative count after row \<open>i\<close>) and \<open>c (-1) = 0\<close>, the counts are
  non-decreasing and at most \<open>omega\<close>, the position bytes of each row are strictly increasing,
  and every slot from the last count up to \<open>omega\<close> is zero.\<close>

definition hint_count :: "nat \<Rightarrow> byte list \<Rightarrow> nat \<Rightarrow> nat" where
  "hint_count omega b i = (if i = 0 then 0 else unat (b ! (omega + (i - 1))))"

definition hint_encoding_ok :: "nat \<Rightarrow> nat \<Rightarrow> byte list \<Rightarrow> bool" where
  "hint_encoding_ok omega k b =
     (list_all (\<lambda>i. hint_count omega b i \<le> hint_count omega b (i + 1)
                   \<and> hint_count omega b (i + 1) \<le> omega) [0..<k] \<and>
      list_all (\<lambda>i. list_all (\<lambda>p. hint_count omega b i < p \<longrightarrow> b ! (p - 1) < b ! p)
                   [hint_count omega b i..<hint_count omega b (i + 1)]) [0..<k] \<and>
      list_all (\<lambda>p. b ! p = 0) [hint_count omega b k..<omega])"

text \<open>The positions of the non-zero coefficients of a row, in ascending order, and the
  number of position bytes written before row \<open>i\<close>.\<close>

definition hint_positions :: "ringElement \<Rightarrow> nat list" where
  "hint_positions row = filter (\<lambda>j. row ! j \<noteq> 0) [0..<256]"

definition hint_offset :: "ringElement list \<Rightarrow> nat \<Rightarrow> nat" where
  "hint_offset h i = length (concat (map hint_positions (take i h)))"

text \<open>What \<open>packHint\<close> leaves in the buffer, index by index.\<close>

definition hint_packed :: "ringElement list \<Rightarrow> nat \<Rightarrow> byte list \<Rightarrow> bool" where
  "hint_packed h omega b =
     (length b = omega + length h \<and>
      (\<forall>i<length h. b ! (omega + i) = of_nat (hint_offset h (i + 1))) \<and>
      (\<forall>i<length h. \<forall>t<length (hint_positions (h ! i)).
           b ! (hint_offset h i + t) = of_nat (hint_positions (h ! i) ! t)) \<and>
      (\<forall>p. hint_offset h (length h) \<le> p \<and> p < omega \<longrightarrow> b ! p = 0))"

text \<open>One layer of the forward and of the inverse transform, index by index: \<open>k0\<close> is the
  value of the counter \<open>k\<close> when the layer starts.\<close>

definition ntt_layer_nth :: "nat \<Rightarrow> nat \<Rightarrow> ringElement \<Rightarrow> nat \<Rightarrow> fieldElement" where
  "ntt_layer_nth len k0 f p =
     (let z = zetas ! (k0 + p div (2 * len)) in
      if p mod (2 * len) < len then fieldAdd (f ! p) (fieldMul z (f ! (p + len)))
      else fieldSub (f ! (p - len)) (fieldMul z (f ! p)))"

definition ntt_layer :: "nat \<Rightarrow> nat \<Rightarrow> ringElement \<Rightarrow> ringElement" where
  "ntt_layer len k0 f = map (ntt_layer_nth len k0 f) [0..<256]"

definition invNTT_layer_nth :: "nat \<Rightarrow> nat \<Rightarrow> nttElement \<Rightarrow> nat \<Rightarrow> fieldElement" where
  "invNTT_layer_nth len k0 f p =
     (let z = q - zetas ! (k0 - p div (2 * len)) in
      if p mod (2 * len) < len then fieldAdd (f ! p) (f ! (p + len))
      else fieldMul z (fieldSub (f ! (p - len)) (f ! p)))"

definition invNTT_layer :: "nat \<Rightarrow> nat \<Rightarrow> nttElement \<Rightarrow> nttElement" where
  "invNTT_layer len k0 f = map (invNTT_layer_nth len k0 f) [0..<256]"

text \<open>A polynomial with all coefficients reduced, and multiplication of every coefficient by
  a scalar modulo \<open>q\<close>.\<close>

definition valid_poly :: "fieldElement list \<Rightarrow> bool" where
  "valid_poly f = (length f = 256 \<and> list_all (\<lambda>x. unat x < 8380417) f)"

definition smul :: "nat \<Rightarrow> fieldElement list \<Rightarrow> fieldElement list" where
  "smul c f = map (\<lambda>x. of_nat ((c * unat x) mod 8380417)) f"

text \<open>Two table entries \<open>z\<close>, \<open>z'\<close> (both in Montgomery form) with \<open>z * z' = -R^2\<close> modulo
  \<open>q\<close>: then \<open>q - z'\<close> is the Montgomery form of the inverse of the root behind \<open>z\<close>.\<close>

definition zeta_pair_ok :: "fieldElement \<Rightarrow> fieldElement \<Rightarrow> bool" where
  "zeta_pair_ok z z' = (0 < uint z' \<and> uint z' < 8380417 \<and>
       (uint z * uint z') mod 8380417 = 6014466)"

text \<open>The buffer of \<open>sampleChallenge\<close> holds the last 136 bytes read from the stream; the
  invariant of its outer loop at index \<open>i\<close>.\<close>

definition shake_buffered :: "shake \<Rightarrow> byte list \<Rightarrow> nat \<Rightarrow> bool" where
  "shake_buffered h buf offset =
     (136 \<le> snd h \<and> offset \<le> 136 \<and> buf = map (\<lambda>i. fst h (snd h - 136 + i)) [0..<136])"

definition challenge_inv :: "nat \<Rightarrow> ringElement \<Rightarrow> nat \<Rightarrow> bool" where
  "challenge_inv tau c i =
     (length c = 256 \<and> list_all (\<lambda>x. x = 0 \<or> x = 1 \<or> x = 8380416) c \<and>
      list_all (\<lambda>k. c ! k = 0) [i..<256] \<and>
      length (filter (\<lambda>x. x \<noteq> 0) c) + 256 = tau + i)"

text \<open>The rules of the hint encoding for one row: the counts do not decrease and stay
  within \<open>omega\<close>, and the positions of the row increase strictly.\<close>

definition hint_row_ok :: "nat \<Rightarrow> byte list \<Rightarrow> nat \<Rightarrow> bool" where
  "hint_row_ok omega b i =
     (hint_count omega b i \<le> hint_count omega b (i + 1) \<and> hint_count omega b (i + 1) \<le> omega \<and>
      list_all (\<lambda>p. hint_count omega b i < p \<longrightarrow> b ! (p - 1) < b ! p)
        [hint_count omega b i..<hint_count omega b (i + 1)])"


section \<open>Field arithmetic: Montgomery reduction\<close>

lemma fieldReduceOnce_lt:
  assumes "unat a < 8380417"
  shows "fieldReduceOnce a = a"
proof -
  have a: "a < 8380417" using assms by (simp add: word_less_nat_alt)
  have "unat (a - 8380417) = unat a + 2^32 - 8380417"
    using assms by (simp add: unat_sub_if_size word_size)
  then have "unat (a - 8380417) div 2^31 = 1" using assms by simp
  then have "drop_bit 31 (a - 8380417) = 1"
    by (simp add: word_eq_iff_unsigned[where ?'a=nat] unat_drop_bit_eq drop_bit_eq_div unat_div)
  then show ?thesis by (simp add: fieldReduceOnce_def q_def Let_def)
qed

lemma fieldReduceOnce_ge:
  assumes "8380417 \<le> unat a" "unat a < 2 * 8380417"
  shows "fieldReduceOnce a = a - 8380417"
proof -
  have "unat (a - 8380417) = unat a - 8380417"
    using assms by (simp add: unat_sub_if_size word_size)
  then have "unat (a - 8380417) div 2^31 = 0" using assms by simp
  then have "drop_bit 31 (a - 8380417) = 0"
    by (simp add: word_eq_iff_unsigned[where ?'a=nat] unat_drop_bit_eq drop_bit_eq_div unat_div)
  then show ?thesis by (simp add: fieldReduceOnce_def q_def Let_def)
qed

lemma unat_fieldReduceOnce:
  assumes "unat a < 2 * 8380417"
  shows "unat (fieldReduceOnce a) = unat a mod 8380417"
proof (cases "unat a < 8380417")
  case True then show ?thesis by (simp add: fieldReduceOnce_lt)
next
  case False
  then have "unat (a - 8380417) = unat a - 8380417"
    using assms by (simp add: unat_sub_if_size word_size)
  moreover have "unat a mod 8380417 = unat a - 8380417"
    using False assms by (simp add: mod_if)
  ultimately show ?thesis using False assms by (simp add: fieldReduceOnce_ge)
qed


lemma unat_fieldAdd:
  assumes "unat a < 8380417" "unat b < 8380417"
  shows "unat (fieldAdd a b) = (unat a + unat b) mod 8380417"
proof -
  have "unat (a + b) = unat a + unat b"
    using assms by (simp add: unat_word_ariths)
  then show ?thesis using assms by (simp add: fieldAdd_def unat_fieldReduceOnce)
qed

lemma unat_fieldSub:
  assumes "unat a < 8380417" "unat b < 8380417"
  shows "unat (fieldSub a b) = (unat a + 8380417 - unat b) mod 8380417"
proof -
  have e: "a - b + 8380417 = (a + 8380417) - b" by simp
  have p: "unat (a + 8380417) = unat a + 8380417"
    using assms by (simp add: unat_word_ariths)
  have "unat b \<le> unat (a + 8380417)" using assms p by simp
  then have "unat ((a + 8380417) - b) = unat a + 8380417 - unat b"
    using p by (simp add: unat_sub_if_size word_size)
  then have "unat (a - b + 8380417) = unat a + 8380417 - unat b"
    by (simp only: e)
  then show ?thesis using assms by (simp add: fieldSub_def q_def unat_fieldReduceOnce)
qed

lemma mont_low_gen:
  "((A::nat) + ((A mod M * N) mod M) * c) mod M = (A + A * (N * c)) mod M"
proof -
  have "(((A mod M * N) mod M) * c) mod M = ((A mod M * N) * c) mod M"
    by (rule mod_mult_left_eq)
  also have "\<dots> = (A mod M * (N * c)) mod M" by (simp only: mult.assoc)
  also have "\<dots> = (A * (N * c)) mod M" by (rule mod_mult_left_eq)
  finally have "(A + (((A mod M * N) mod M) * c) mod M) mod M = (A + (A * (N * c)) mod M) mod M"
    by simp
  then show ?thesis by (simp only: mod_add_right_eq)
qed

lemma mont_zero_low:
  "((A::nat) + ((A mod 4294967296 * 4236238847) mod 4294967296) * 8380417) mod 4294967296 = 0"
proof -
  have "A + A * (4236238847 * 8380417) = 4294967296 * (A * 8265825)"
    by simp
  then show ?thesis by (simp only: mont_low_gen mod_mult_self1_is_0)
qed

lemma unat_fieldReduce_aux:
  assumes "unat a < 8380417 * 4294967296"
  shows "unat (fieldReduce a) < 8380417 \<and>
         (unat (fieldReduce a) * 4294967296) mod 8380417 = unat a mod 8380417"
proof -
  define A where "A = unat a"
  define t where "t = (ucast a :: 32 word) * qNegInv"
  define T where "T = (A mod 4294967296 * 4236238847) mod 4294967296"
  have t: "unat t = T"
    by (simp add: t_def T_def A_def qNegInv_def unat_word_ariths unsigned_ucast_eq take_bit_eq_mod)
  have T: "T < 4294967296" by (simp add: T_def)
  have uq: "(ucast q :: 64 word) = 8380417" by (simp add: q_def)
  have tq: "unat ((ucast t :: 64 word) * 8380417) = T * 8380417"
    using T t by (simp add: unat_word_ariths unsigned_ucast_eq take_bit_eq_mod)
  have A: "A < 8380417 * 4294967296" using assms by (simp add: A_def)
  have s: "unat (a + (ucast t :: 64 word) * 8380417) = A + T * 8380417"
    using A T tq by (simp add: unat_word_ariths A_def)
  define S where "S = A + T * 8380417"
  have S0: "S mod 4294967296 = 0" unfolding S_def T_def by (rule mont_zero_low)
  have S1: "S < 2 * 8380417 * 4294967296" using A T by (simp add: S_def)
  define H where "H = S div 4294967296"
  have H: "H < 2 * 8380417" using S1 by (simp add: H_def)
  have HS: "H * 4294967296 = S"
    using S0 div_mult_mod_eq[of S 4294967296] by (simp add: H_def)
  have d: "unat (ucast (drop_bit 32 (a + (ucast t :: 64 word) * 8380417)) :: 32 word) = H"
    using H s by (simp add: unsigned_ucast_eq take_bit_eq_mod unat_drop_bit_eq drop_bit_eq_div unat_div H_def S_def)
  have r: "unat (fieldReduce a) = H mod 8380417"
    using H d by (simp add: fieldReduce_def Let_def uq t_def[symmetric] unat_fieldReduceOnce)
  have "(H mod 8380417 * 4294967296) mod 8380417 = (H * 4294967296) mod 8380417"
    by (simp add: mod_simps)
  also have "\<dots> = (A + T * 8380417) mod 8380417" using HS by (simp add: S_def)
  also have "\<dots> = A mod 8380417" by simp
  finally show ?thesis using r by (simp add: A_def)
qed

lemma mod_q_cancel_R:
  assumes "(r * 4294967296) mod 8380417 = (x::nat) mod 8380417" "r < 8380417"
  shows "r = (x * 8265825) mod 8380417"
proof -
  have "(x * 8265825) mod 8380417 = ((x mod 8380417) * 8265825) mod 8380417"
    by (simp add: mod_simps)
  also have "\<dots> = (((r * 4294967296) mod 8380417) * 8265825) mod 8380417"
    using assms by simp
  also have "\<dots> = (r * (4294967296 * 8265825)) mod 8380417"
    by (simp add: mod_simps mult.assoc)
  also have "\<dots> = (r * ((4294967296 * 8265825) mod 8380417)) mod 8380417"
    by (simp only: mod_mult_right_eq)
  also have "\<dots> = r" using assms by simp
  finally show ?thesis by simp
qed

lemma unat_fieldReduce:
  assumes "unat a < 8380417 * 4294967296"
  shows "unat (fieldReduce a) = (unat a * 8265825) mod 8380417"
  using unat_fieldReduce_aux[OF assms] mod_q_cancel_R by blast

lemma unat_fieldMul:
  assumes "unat a < 8380417" "unat b < 8380417"
  shows "unat (fieldMul a b) = (unat a * unat b * 8265825) mod 8380417"
proof -
  have "unat a * unat b \<le> 8380416 * 8380416"
    using assms by (intro mult_le_mono) simp_all
  then have "unat a * unat b < 8380417 * 4294967296" by simp
  then have m: "unat ((ucast a :: 64 word) * ucast b) = unat a * unat b"
    using assms by (simp add: unat_word_ariths unsigned_ucast_eq take_bit_eq_mod)
  show ?thesis using \<open>unat a * unat b < 8380417 * 4294967296\<close>
    by (simp add: fieldMul_def unat_fieldReduce m)
qed


section \<open>HighBits and Decompose in closed form\<close>

lemma div_bounds_int:
  fixes a :: int
  assumes "0 < b"
  shows "b * (a div b) \<le> a" "a < b * (a div b) + b"
proof -
  have "a = b * (a div b) + a mod b" by simp
  moreover have "0 \<le> a mod b" "a mod b < b" using assms by simp_all
  ultimately show "b * (a div b) \<le> a" "a < b * (a div b) + b" by linarith+
qed

lemma div_eqI_int:
  fixes a b v :: int
  assumes "b * v \<le> a" "a < b * v + b"
  shows "a div b = v"
  by (rule int_div_pos_eq[where r="a - b * v"]) (use assms in simp_all)

lemma hb32_arith:
  fixes R :: int
  assumes "0 \<le> R" "R < 8380417"
  shows "(((R + 127) div 128) * 1025 + 2097152) div 4194304 = (R + 261887) div 523776"
proof -
  define c where "c = (R + 127) div 128"
  define v where "v = (R + 261887) div 523776"
  have c1: "128 * c \<le> R + 127" and c2: "R + 127 < 128 * c + 128"
    unfolding c_def by (rule div_bounds_int, simp)+
  have v1: "523776 * v \<le> R + 261887" and v2: "R + 261887 < 523776 * v + 523776"
    unfolding v_def by (rule div_bounds_int, simp)+
  have v0: "0 \<le> v" "v \<le> 16" using assms v1 v2 by linarith+
  have "523776 * v - 261760 < 128 * c + 128" using v1 c2 by linarith
  then have "128 * (4092 * v - 2045) < 128 * (c + 1)" by simp
  then have cl: "4092 * v - 2045 \<le> c" by simp
  have "128 * c < 523776 * v + 262016" using v2 c1 by linarith
  then have "128 * c < 128 * (4092 * v + 2047)" by simp
  then have cu: "c \<le> 4092 * v + 2046" by simp
  have "(c * 1025 + 2097152) div 4194304 = v"
    by (rule div_eqI_int) (use cl cu v0 in linarith)+
  then show ?thesis by (simp add: c_def v_def)
qed


lemma sint_32_cases:
  fixes w :: "32 word"
  shows "sint w = (if uint w < 2147483648 then uint w else uint w - 4294967296)"
proof -
  have b: "0 \<le> uint w" "uint w < 4294967296" using uint_lt2p[of w] by simp_all
  have "sint w = take_bit 32 (uint w + 2147483648) - 2147483648"
    using signed_take_bit_eq_take_bit_shift[of 31 "uint w"] by (simp add: sint_uint)
  also have "\<dots> = (uint w + 2147483648) mod 4294967296 - 2147483648"
    by (simp add: take_bit_eq_mod)
  finally have s: "sint w = (uint w + 2147483648) mod 4294967296 - 2147483648" .
  show ?thesis
  proof (cases "uint w < 2147483648")
    case True
    then have "(uint w + 2147483648) mod 4294967296 = uint w + 2147483648"
      using b by simp
    then show ?thesis using s True by simp
  next
    case False
    have "(uint w + 2147483648) mod 4294967296 = uint w + 2147483648 - 4294967296"
      using b False by (simp add: mod_pos_geq)
    then show ?thesis using s False by simp
  qed
qed

lemma sint_eq_uint_small:
  fixes w :: "32 word"
  assumes "uint w < 2147483648"
  shows "sint w = uint w"
  using assms by (simp add: sint_32_cases)

lemma uint_eq_sint_nonneg:
  fixes w :: "32 word"
  assumes "0 \<le> sint w"
  shows "uint w = sint w"
  using assms uint_lt2p[of w] by (simp add: sint_32_cases split: if_splits)

lemma sint_word_of_int_32:
  assumes "- 2147483648 \<le> k" "k < 2147483648"
  shows "sint (word_of_int k :: 32 word) = k"
  using assms signed_take_bit_int_eq_self[of 31 k] by (simp add: sint_sbintrunc')

lemma uint_word_of_int_32:
  assumes "0 \<le> k" "k < 4294967296"
  shows "uint (word_of_int k :: 32 word) = k"
  using assms by (simp add: uint_word_of_int take_bit_eq_mod)

lemma sint_sub_32:
  fixes a b :: "32 word"
  assumes "- 2147483648 \<le> sint a - sint b" "sint a - sint b < 2147483648"
  shows "sint (a - b) = sint a - sint b"
  using assms signed_take_bit_int_eq_self[of 31 "sint a - sint b"] by (simp add: sint_word_diff)

lemma sint_add_32:
  fixes a b :: "32 word"
  assumes "- 2147483648 \<le> sint a + sint b" "sint a + sint b < 2147483648"
  shows "sint (a + b) = sint a + sint b"
  using assms signed_take_bit_int_eq_self[of 31 "sint a + sint b"] by (simp add: sint_word_add)

lemma sint_mult_32:
  fixes a b :: "32 word"
  assumes "- 2147483648 \<le> sint a * sint b" "sint a * sint b < 2147483648"
  shows "sint (a * b) = sint a * sint b"
  using assms signed_take_bit_int_eq_self[of 31 "sint a * sint b"] by (simp add: sint_word_mult)

lemma sint_sdb31:
  fixes w :: "32 word"
  shows "signed_drop_bit 31 w = (if sint w < 0 then - 1 else 0)"
proof -
  have r: "- 2147483648 \<le> sint w" "sint w < 2147483648"
    using sint_ge[of w] sint_lt[of w] by simp_all
  have "sint (signed_drop_bit 31 w) = sint w div 2147483648"
    by (simp add: sint_signed_drop_bit_eq drop_bit_eq_div)
  also have "\<dots> = (if sint w < 0 then - 1 else 0)"
  proof (cases "sint w < 0")
    case True
    then have "sint w div 2147483648 = - 1"
      using r by (intro div_eqI_int) simp_all
    then show ?thesis using True by simp
  next
    case False
    then show ?thesis using r by simp
  qed
  finally have "sint (signed_drop_bit 31 w) = sint (if sint w < 0 then - 1 else 0 :: 32 word)"
    by simp
  then show ?thesis by (simp only: word_eq_iff_signed[where ?'a=int, symmetric] signed_word_eqI)
qed


lemma hb88_arith:
  fixes R :: int
  assumes "0 \<le> R" "R < 8380417"
  shows "(((R + 127) div 128) * 11275 + 8388608) div 16777216 = (R + 95231) div 190464"
proof -
  define c where "c = (R + 127) div 128"
  define v where "v = (R + 95231) div 190464"
  have c1: "128 * c \<le> R + 127" and c2: "R + 127 < 128 * c + 128"
    unfolding c_def by (rule div_bounds_int, simp)+
  have v1: "190464 * v \<le> R + 95231" and v2: "R + 95231 < 190464 * v + 190464"
    unfolding v_def by (rule div_bounds_int, simp)+
  have v0: "0 \<le> v" "v \<le> 44" using assms v1 v2 by linarith+
  have "190464 * v - 95104 < 128 * c + 128" using v1 c2 by linarith
  then have "128 * (1488 * v - 743) < 128 * (c + 1)" by simp
  then have cl: "1488 * v - 743 \<le> c" by simp
  have "128 * c < 190464 * v + 95360" using v2 c1 by linarith
  then have "128 * c < 128 * (1488 * v + 745)" by simp
  then have cu: "c \<le> 1488 * v + 744" by simp
  have "(c * 11275 + 8388608) div 16777216 = v"
    by (rule div_eqI_int) (use cl cu v0 in linarith)+
  then show ?thesis by (simp add: c_def v_def)
qed

text \<open>The first step common to both branches: ceil(r / 128).\<close>

lemma hb_step1:
  fixes r :: "32 word"
  assumes "uint r < 8380417"
  shows "uint (drop_bit 7 (r + 127)) = (uint r + 127) div 128"
proof -
  have "uint (r + 127) = uint r + 127"
    using assms by (simp add: uint_word_ariths)
  then show ?thesis by (simp add: drop_bit_eq_div uint_div_distrib)
qed


lemma hb_v_bounds:
  assumes "0 < g"
  shows "2 * g * hb_v g R \<le> R + g - 1" "R + g - 1 < 2 * g * hb_v g R + 2 * g"
  unfolding hb_v_def by (rule div_bounds_int, use assms in simp)+

lemma highBits32_closed:
  fixes r :: "32 word"
  assumes "uint r < 8380417"
  shows "uint (highBits r 261888) = hb_v 261888 (uint r) mod 16"
proof -
  define R where "R = uint r"
  define c where "c = (R + 127) div 128"
  define cw where "cw = drop_bit 7 (r + 127)"
  have R: "0 \<le> R" "R < 8380417" using assms by (simp_all add: R_def)
  have cw: "uint cw = c" unfolding cw_def c_def R_def by (rule hb_step1[OF assms])
  have c: "0 \<le> c" "c \<le> 65473" using R by (simp_all add: c_def)
  define mw where "mw = cw * 1025 + push_bit 21 1"
  have "uint (cw * 1025) = c * 1025"
    using c cw by (simp add: uint_word_ariths)
  then have mw: "uint mw = c * 1025 + 2097152"
    using c by (simp add: mw_def uint_word_ariths)
  then have smw: "sint mw = c * 1025 + 2097152"
    using c by (simp add: sint_eq_uint_small)
  define x where "x = signed_drop_bit 22 mw"
  have sx: "sint x = hb_v 261888 R"
    using hb32_arith[OF R] by (simp add: x_def sint_signed_drop_bit_eq drop_bit_eq_div smw c_def hb_v_def)
  have v: "0 \<le> hb_v 261888 R" "hb_v 261888 R \<le> 16"
    using hb_v_bounds[of 261888 R] R by simp_all
  have ux: "uint x = hb_v 261888 R" using sx v by (simp add: uint_eq_sint_nonneg)
  have "x AND 15 = x AND mask 4" by (simp add: mask_eq_exp_minus_1)
  then have "uint (x AND 15) = uint x mod 16"
    by (simp add: and_mask_mod_2p uint_word_of_int take_bit_eq_mod)
  moreover have "highBits r 261888 = x AND 15"
    by (simp add: highBits_def gamma2QMinus1Div32_def Let_def cw_def mw_def x_def)
  ultimately show ?thesis by (simp add: ux R_def)
qed

lemma highBits88_closed:
  fixes r :: "32 word"
  assumes "uint r < 8380417"
  shows "uint (highBits r 95232) = hb_v 95232 (uint r) mod 44"
proof -
  define R where "R = uint r"
  define c where "c = (R + 127) div 128"
  define cw where "cw = drop_bit 7 (r + 127)"
  have R: "0 \<le> R" "R < 8380417" using assms by (simp_all add: R_def)
  have cw: "uint cw = c" unfolding cw_def c_def R_def by (rule hb_step1[OF assms])
  have c: "0 \<le> c" "c \<le> 65473" using R by (simp_all add: c_def)
  define mw where "mw = cw * 11275 + push_bit 23 1"
  have "uint (cw * 11275) = c * 11275"
    using c cw by (simp add: uint_word_ariths)
  then have mw: "uint mw = c * 11275 + 8388608"
    using c by (simp add: mw_def uint_word_ariths)
  then have smw: "sint mw = c * 11275 + 8388608"
    using c by (simp add: sint_eq_uint_small)
  define x where "x = signed_drop_bit 24 mw"
  define v where "v = hb_v 95232 R"
  have sx: "sint x = v"
    using hb88_arith[OF R] by (simp add: x_def sint_signed_drop_bit_eq drop_bit_eq_div smw c_def hb_v_def v_def)
  have v: "0 \<le> v" "v \<le> 44"
    using hb_v_bounds[of 95232 R] R by (simp_all add: v_def)
  have ux: "uint x = v" using sx v by (simp add: uint_eq_sint_nonneg)
  have s43: "sint (43 - x) = 43 - v"
    using v sx by (simp add: sint_sub_32)
  have res: "x XOR (signed_drop_bit 31 (43 - x) AND x) = (if v = 44 then 0 else x)"
    using v by (auto simp add: sint_sdb31 s43)
  have "uint (if v = 44 then 0 else x) = v mod 44"
    using v ux by auto
  moreover have "highBits r 95232 = x XOR (signed_drop_bit 31 (43 - x) AND x)"
    by (simp add: highBits_def gamma2QMinus1Div32_def Let_def cw_def mw_def x_def)
  ultimately show ?thesis by (simp add: res v_def R_def)
qed



lemmas highBits16_closed = highBits32_closed
lemmas highBits44_closed = highBits88_closed

lemma hb_v_range_16:
  assumes "0 \<le> R" "R < 8380417"
  shows "0 \<le> hb_v 261888 R" "hb_v 261888 R \<le> 16"
  using hb_v_bounds[of 261888 R] assms by simp_all

lemma decompose16_closed:
  fixes r :: "32 word"
  assumes r: "uint r < 8380417"
  shows "fst (decompose r 261888) = highBits r 261888"
    and "sint (snd (decompose r 261888)) = r0_v 261888 16 (uint r)"
proof -
  define R where "R = uint r"
  define v where "v = hb_v 261888 R"
  define r1 where "r1 = highBits r 261888"
  have R: "0 \<le> R" "R < 8380417" using r by (simp_all add: R_def)
  have vb: "523776 * v \<le> R + 261887" "R + 261887 < 523776 * v + 523776"
    unfolding v_def using hb_v_bounds[of 261888 R] by simp_all
  have v: "0 \<le> v" "v \<le> 16" unfolding v_def using hb_v_range_16[OF R] by simp_all
  define h where "h = (if v = 16 then 0 else v)"
  have "uint r1 = v mod 16"
    unfolding r1_def v_def R_def by (rule highBits16_closed[OF r])
  then have ur1: "uint r1 = h" using v by (simp add: h_def)
  have hr: "0 \<le> h" "h < 16" using v by (auto simp: h_def)
  have sr1: "sint r1 = h" using ur1 hr by (simp add: sint_eq_uint_small)
  have sr: "sint r = R" using R by (simp add: sint_eq_uint_small R_def)
  have s2: "sint (r1 * 261888 * 2) = h * 523776"
    using hr sr1 by (simp add: sint_mult_32)
  define r0 where "r0 = r - r1 * 261888 * 2"
  have s3: "sint r0 = R - h * 523776"
    unfolding r0_def using hr s2 sr R by (simp add: sint_sub_32)
  have s4: "sint (4190208 - r0) = 4190208 - (R - h * 523776)"
    using hr s3 R by (simp add: sint_sub_32)
  have neg: "(4190208 < R - h * 523776) = (v = 16)"
    using vb v R by (auto simp: h_def)
  have "signed_drop_bit 31 (4190208 - r0) AND 8380417 = (if v = 16 then 8380417 else 0)"
    by (simp add: sint_sdb31 s4 neg)
  then have e: "snd (decompose r 261888) = r0 - (if v = 16 then 8380417 else 0)"
    by (simp add: decompose_def Let_def qMinus1Div2_def q_def r0_def r1_def)
  show "fst (decompose r 261888) = highBits r 261888"
    by (simp add: decompose_def Let_def)
  show "sint (snd (decompose r 261888)) = r0_v 261888 16 (uint r)"
  proof (cases "v = 16")
    case True
    then have "sint (r0 - 8380417) = R - 8380417"
      using s3 R by (simp add: sint_sub_32 h_def)
    then show ?thesis using True e by (simp add: r0_v_def R_def v_def)
  next
    case False
    then show ?thesis using e s3 by (simp add: r0_v_def R_def v_def h_def)
  qed
qed

lemma r0_v_range_16:
  assumes "0 \<le> R" "R < 8380417"
  shows "- 261888 \<le> r0_v 261888 16 R" "r0_v 261888 16 R \<le> 261888"
    "(523776 * (hb_v 261888 R mod 16) + r0_v 261888 16 R) mod 8380417 = R"
proof -
  define v where "v = hb_v 261888 R"
  have vb: "523776 * v \<le> R + 261887" "R + 261887 < 523776 * v + 523776"
    unfolding v_def using hb_v_bounds[of 261888 R] by simp_all
  have v: "0 \<le> v" "v \<le> 16" unfolding v_def using hb_v_range_16[OF assms] by simp_all
  show "- 261888 \<le> r0_v 261888 16 R" "r0_v 261888 16 R \<le> 261888"
    using vb v assms by (auto simp: r0_v_def v_def[symmetric])
  show "(523776 * (hb_v 261888 R mod 16) + r0_v 261888 16 R) mod 8380417 = R"
  proof (cases "v = 16")
    case True
    have "(R - 8380417) mod 8380417 = R mod 8380417"
      using mod_diff_right_eq[of R 8380417 8380417] by simp
    then show ?thesis using True assms by (simp add: r0_v_def v_def[symmetric])
  next
    case False
    then have "v mod 16 = v" using v by simp
    then show ?thesis using False assms by (simp add: r0_v_def v_def[symmetric])
  qed
qed


lemma hb_v_range_44:
  assumes "0 \<le> R" "R < 8380417"
  shows "0 \<le> hb_v 95232 R" "hb_v 95232 R \<le> 44"
  using hb_v_bounds[of 95232 R] assms by simp_all

lemma decompose44_closed:
  fixes r :: "32 word"
  assumes r: "uint r < 8380417"
  shows "fst (decompose r 95232) = highBits r 95232"
    and "sint (snd (decompose r 95232)) = r0_v 95232 44 (uint r)"
proof -
  define R where "R = uint r"
  define v where "v = hb_v 95232 R"
  define r1 where "r1 = highBits r 95232"
  have R: "0 \<le> R" "R < 8380417" using r by (simp_all add: R_def)
  have vb: "190464 * v \<le> R + 95231" "R + 95231 < 190464 * v + 190464"
    unfolding v_def using hb_v_bounds[of 95232 R] by simp_all
  have v: "0 \<le> v" "v \<le> 44" unfolding v_def using hb_v_range_44[OF R] by simp_all
  define h where "h = (if v = 44 then 0 else v)"
  have "uint r1 = v mod 44"
    unfolding r1_def v_def R_def by (rule highBits44_closed[OF r])
  then have ur1: "uint r1 = h" using v by (simp add: h_def)
  have hr: "0 \<le> h" "h < 44" using v by (auto simp: h_def)
  have sr1: "sint r1 = h" using ur1 hr by (simp add: sint_eq_uint_small)
  have sr: "sint r = R" using R by (simp add: sint_eq_uint_small R_def)
  have s2: "sint (r1 * 95232 * 2) = h * 190464"
    using hr sr1 by (simp add: sint_mult_32)
  define r0 where "r0 = r - r1 * 95232 * 2"
  have s3: "sint r0 = R - h * 190464"
    unfolding r0_def using hr s2 sr R by (simp add: sint_sub_32)
  have s4: "sint (4190208 - r0) = 4190208 - (R - h * 190464)"
    using hr s3 R by (simp add: sint_sub_32)
  have neg: "(4190208 < R - h * 190464) = (v = 44)"
    using vb v R by (auto simp: h_def)
  have "signed_drop_bit 31 (4190208 - r0) AND 8380417 = (if v = 44 then 8380417 else 0)"
    by (simp add: sint_sdb31 s4 neg)
  then have e: "snd (decompose r 95232) = r0 - (if v = 44 then 8380417 else 0)"
    by (simp add: decompose_def Let_def qMinus1Div2_def q_def r0_def r1_def)
  show "fst (decompose r 95232) = highBits r 95232"
    by (simp add: decompose_def Let_def)
  show "sint (snd (decompose r 95232)) = r0_v 95232 44 (uint r)"
  proof (cases "v = 44")
    case True
    then have "sint (r0 - 8380417) = R - 8380417"
      using s3 R by (simp add: sint_sub_32 h_def)
    then show ?thesis using True e by (simp add: r0_v_def R_def v_def)
  next
    case False
    then show ?thesis using e s3 by (simp add: r0_v_def R_def v_def h_def)
  qed
qed

lemma r0_v_range_44:
  assumes "0 \<le> R" "R < 8380417"
  shows "- 95232 \<le> r0_v 95232 44 R" "r0_v 95232 44 R \<le> 95232"
    "(190464 * (hb_v 95232 R mod 44) + r0_v 95232 44 R) mod 8380417 = R"
proof -
  define v where "v = hb_v 95232 R"
  have vb: "190464 * v \<le> R + 95231" "R + 95231 < 190464 * v + 190464"
    unfolding v_def using hb_v_bounds[of 95232 R] by simp_all
  have v: "0 \<le> v" "v \<le> 44" unfolding v_def using hb_v_range_44[OF assms] by simp_all
  show "- 95232 \<le> r0_v 95232 44 R" "r0_v 95232 44 R \<le> 95232"
    using vb v assms by (auto simp: r0_v_def v_def[symmetric])
  show "(190464 * (hb_v 95232 R mod 44) + r0_v 95232 44 R) mod 8380417 = R"
  proof (cases "v = 44")
    case True
    have "(R - 8380417) mod 8380417 = R mod 8380417"
      using mod_diff_right_eq[of R 8380417 8380417] by simp
    then show ?thesis using True assms by (simp add: r0_v_def v_def[symmetric])
  next
    case False
    then have "v mod 44 = v" using v by simp
    then show ?thesis using False assms by (simp add: r0_v_def v_def[symmetric])
  qed
qed


lemma hint_arith_16:
  fixes R R' Z :: int
  assumes R: "0 \<le> R" "R < 8380417" and R': "0 \<le> R'" "R' < 8380417"
    and Z: "- 261888 < Z" "Z < 261888"
    and rel: "R' = R + Z \<or> R' = R + Z - 8380417 \<or> R' = R + Z + 8380417"
    and neq: "hb_v 261888 R' mod 16 \<noteq> hb_v 261888 R mod 16"
  shows "(if 0 < r0_v 261888 16 R' then (hb_v 261888 R' mod 16 + 1) mod 16
          else (hb_v 261888 R' mod 16 - 1) mod 16) = hb_v 261888 R mod 16"
proof -
  define v where "v = hb_v 261888 R"
  define v' where "v' = hb_v 261888 R'"
  have vb: "523776 * v \<le> R + 261887" "R + 261887 < 523776 * v + 523776"
    unfolding v_def using hb_v_bounds[of 261888 R] by simp_all
  have vb': "523776 * v' \<le> R' + 261887" "R' + 261887 < 523776 * v' + 523776"
    unfolding v'_def using hb_v_bounds[of 261888 R'] by simp_all
  have v: "0 \<le> v" "v \<le> 16" unfolding v_def using hb_v_range_16[OF R] by simp_all
  have v': "0 \<le> v'" "v' \<le> 16" unfolding v'_def using hb_v_range_16[OF R'] by simp_all
  define h where "h = (if v = 16 then 0 else v)"
  define h' where "h' = (if v' = 16 then 0 else v')"
  have h: "v mod 16 = h" using v by (simp add: h_def)
  have h': "v' mod 16 = h'" using v' by (simp add: h'_def)
  have hh: "h' \<noteq> h" using neq by (simp add: v_def[symmetric] v'_def[symmetric] h h')
  have hr: "0 \<le> h" "h < 16" "0 \<le> h'" "h' < 16" using v v' by (auto simp: h_def h'_def)
  show ?thesis
  proof (cases "0 < r0_v 261888 16 R'")
    case True
    then have nM: "v' \<noteq> 16" and pos: "0 < R' - 523776 * v'"
      using R' by (auto simp: r0_v_def v'_def[symmetric] split: if_splits)
    have "h = (if v' = 15 then 0 else v' + 1)"
      using rel vb vb' v v' nM pos Z R R' hh by (auto simp: h_def h'_def split: if_splits)
    moreover have "(h' + 1) mod 16 = (if v' = 15 then 0 else v' + 1)"
      using nM v' by (auto simp: h'_def)
    ultimately show ?thesis using True by (simp add: v_def[symmetric] v'_def[symmetric] h h')
  next
    case False
    then have np: "v' = 16 \<or> R' - 523776 * v' \<le> 0"
      by (auto simp: r0_v_def v'_def[symmetric] split: if_splits)
    have "h = (if h' = 0 then 15 else h' - 1)"
      using rel vb vb' v v' np Z R R' hh by (auto simp: h_def h'_def split: if_splits)
    moreover have "(h' - 1) mod 16 = (if h' = 0 then 15 else h' - 1)"
      using hr by auto
    ultimately show ?thesis using False by (simp add: v_def[symmetric] v'_def[symmetric] h h')
  qed
qed


lemma hint_arith_44:
  fixes R R' Z :: int
  assumes R: "0 \<le> R" "R < 8380417" and R': "0 \<le> R'" "R' < 8380417"
    and Z: "- 95232 < Z" "Z < 95232"
    and rel: "R' = R + Z \<or> R' = R + Z - 8380417 \<or> R' = R + Z + 8380417"
    and neq: "hb_v 95232 R' mod 44 \<noteq> hb_v 95232 R mod 44"
  shows "(if 0 < r0_v 95232 44 R' then (hb_v 95232 R' mod 44 + 1) mod 44
          else (hb_v 95232 R' mod 44 - 1) mod 44) = hb_v 95232 R mod 44"
proof -
  define v where "v = hb_v 95232 R"
  define v' where "v' = hb_v 95232 R'"
  have vb: "190464 * v \<le> R + 95231" "R + 95231 < 190464 * v + 190464"
    unfolding v_def using hb_v_bounds[of 95232 R] by simp_all
  have vb': "190464 * v' \<le> R' + 95231" "R' + 95231 < 190464 * v' + 190464"
    unfolding v'_def using hb_v_bounds[of 95232 R'] by simp_all
  have v: "0 \<le> v" "v \<le> 44" unfolding v_def using hb_v_range_44[OF R] by simp_all
  have v': "0 \<le> v'" "v' \<le> 44" unfolding v'_def using hb_v_range_44[OF R'] by simp_all
  define h where "h = (if v = 44 then 0 else v)"
  define h' where "h' = (if v' = 44 then 0 else v')"
  have h: "v mod 44 = h" using v by (simp add: h_def)
  have h': "v' mod 44 = h'" using v' by (simp add: h'_def)
  have hh: "h' \<noteq> h" using neq by (simp add: v_def[symmetric] v'_def[symmetric] h h')
  have hr: "0 \<le> h" "h < 44" "0 \<le> h'" "h' < 44" using v v' by (auto simp: h_def h'_def)
  show ?thesis
  proof (cases "0 < r0_v 95232 44 R'")
    case True
    then have nM: "v' \<noteq> 44" and pos: "0 < R' - 190464 * v'"
      using R' by (auto simp: r0_v_def v'_def[symmetric] split: if_splits)
    have "h = (if v' = 43 then 0 else v' + 1)"
      using rel vb vb' v v' nM pos Z R R' hh by (auto simp: h_def h'_def split: if_splits)
    moreover have "(h' + 1) mod 44 = (if v' = 43 then 0 else v' + 1)"
      using nM v' by (auto simp: h'_def)
    ultimately show ?thesis using True by (simp add: v_def[symmetric] v'_def[symmetric] h h')
  next
    case False
    then have np: "v' = 44 \<or> R' - 190464 * v' \<le> 0"
      by (auto simp: r0_v_def v'_def[symmetric] split: if_splits)
    have "h = (if h' = 0 then 43 else h' - 1)"
      using rel vb vb' v v' np Z R R' hh by (auto simp: h_def h'_def split: if_splits)
    moreover have "(h' - 1) mod 44 = (if h' = 0 then 43 else h' - 1)"
      using hr by auto
    ultimately show ?thesis using False by (simp add: v_def[symmetric] v'_def[symmetric] h h')
  qed
qed


section \<open>Hint recovery: UseHint after MakeHint\<close>

lemma word_and_15: "(word_of_int k :: 32 word) AND 15 = word_of_int (k mod 16)"
proof -
  have "(15 :: 32 word) = mask 4" by (simp add: mask_eq_exp_minus_1)
  then have "(word_of_int k :: 32 word) AND 15 = word_of_int (uint (word_of_int k :: 32 word) mod 2 ^ 4)"
    by (simp only: and_mask_mod_2p)
  also have "uint (word_of_int k :: 32 word) mod 2 ^ 4 = (k mod 2 ^ 32) mod 2 ^ 4"
    by (simp add: uint_word_of_int take_bit_eq_mod)
  also have "\<dots> = k mod 2 ^ 4"
    by (rule mod_mod_cancel) simp
  finally show ?thesis by simp
qed

lemma unat_lt_q_iff: "(unat (r::32 word) < 8380417) = (uint r < 8380417)"
proof -
  have "(unat r < 8380417) = (r < 8380417)" by (simp add: word_less_nat_alt)
  also have "\<dots> = (uint r < 8380417)" by (simp add: word_less_def)
  finally show ?thesis .
qed

lemma uint_fieldAdd:
  fixes r z :: "32 word"
  assumes r: "uint r < 8380417" and z: "uint z < 8380417"
  shows "uint (fieldAdd r z) = (uint r + uint z) mod 8380417"
proof -
  have ur: "unat r < 8380417" "unat z < 8380417"
    using r z by (simp_all only: unat_lt_q_iff)
  have "unat (fieldAdd r z) = (unat r + unat z) mod 8380417"
    by (rule unat_fieldAdd[OF ur])
  then have "int (unat (fieldAdd r z)) = int ((unat r + unat z) mod 8380417)" by (rule arg_cong)
  then show ?thesis
    by (simp only: of_nat_unat zmod_int of_nat_add of_nat_numeral)
qed
lemma infinityNorm_centered:
  fixes z :: "32 word"
  assumes z: "uint z < 8380417" and nz: "infinityNorm z < g" and g: "uint g = G"
  shows "- G < (if uint z \<le> 4190208 then uint z else uint z - 8380417) \<and>
        (if uint z \<le> 4190208 then uint z else uint z - 8380417) < G"
proof -
  have z0: "0 \<le> uint z" by simp
  have "uint (8380417 - z) = uint (8380417 :: 32 word) - uint z"
    using z by (subst uint_sub_if') simp
  then have q: "uint (8380417 - z) = 8380417 - uint z" by simp
  show ?thesis
  proof (cases "uint z \<le> 4190208")
    case True
    then have "infinityNorm z = z" by (simp add: infinityNorm_def qMinus1Div2_def word_le_def)
    then have a: "uint z < G" using nz g by (simp add: word_less_def)
    then have "- G < uint z" using z0 by linarith
    then show ?thesis using True a by simp
  next
    case False
    then have "infinityNorm z = 8380417 - z" by (simp add: infinityNorm_def qMinus1Div2_def q_def word_le_def)
    then have a: "8380417 - uint z < G" using nz g q by (simp add: word_less_def)
    then have "uint z - 8380417 < G" using z by linarith
    then show ?thesis using False a by simp
  qed
qed



lemma useHint_closed_16:
  fixes r :: "32 word"
  assumes r: "uint r < 8380417" and h: "hint \<noteq> 0"
  shows "uint (useHint hint r 261888) =
     (if 0 < r0_v 261888 16 (uint r) then (hb_v 261888 (uint r) mod 16 + 1) mod 16
      else (hb_v 261888 (uint r) mod 16 - 1) mod 16)"
proof -
  define r1 where "r1 = highBits r 261888"
  define r0 where "r0 = snd (decompose r 261888)"
  define k where "k = hb_v 261888 (uint r) mod 16"
  have d: "decompose r 261888 = (r1, r0)"
    using decompose16_closed(1)[OF r] by (simp add: r1_def r0_def prod_eq_iff)
  have s0: "sint r0 = r0_v 261888 16 (uint r)"
    unfolding r0_def by (rule decompose16_closed(2)[OF r])
  have u1: "uint r1 = k" unfolding r1_def k_def by (rule highBits16_closed[OF r])
  have kr: "0 \<le> k" "k < 16" by (simp_all add: k_def)
  have w1: "r1 = word_of_int k" using u1 by (metis word_of_int_uint)
  have pos: "(0 <s r0) = (0 < r0_v 261888 16 (uint r))"
    by (simp add: word_sless_alt s0)
  have up: "uint ((r1 + 1) AND 15) = (k + 1) mod 16"
    proof -
      have "r1 + 1 = word_of_int (k + 1)" by (simp add: w1)
      then have "(r1 + 1) AND 15 = word_of_int ((k + 1) mod 16)"
        by (simp only: word_and_15)
      then show ?thesis by (simp add: uint_word_of_int_32)
    qed
  have um: "uint ((r1 - 1) AND 15) = (k - 1) mod 16"
    proof -
      have "r1 - 1 = word_of_int (k - 1)" by (simp add: w1)
      then have "(r1 - 1) AND 15 = word_of_int ((k - 1) mod 16)"
        by (simp only: word_and_15)
      then show ?thesis by (simp add: uint_word_of_int_32)
    qed
  show ?thesis
    using h up um by (simp add: useHint_def d pos gamma2QMinus1Div32_def k_def[symmetric])
qed

lemma hint_recover_16:
  fixes r z :: "32 word"
  assumes r: "uint r < 8380417" and z: "uint z < 8380417"
    and nz: "infinityNorm z < 261888"
  shows "useHint (makeHint z r 261888) (fieldAdd r z) 261888 = highBits r 261888"
proof -
  define R where "R = uint r"
  define r' where "r' = fieldAdd r z"
  define R' where "R' = uint r'"
  define Z where "Z = (if uint z \<le> 4190208 then uint z else uint z - 8380417)"
  have R: "0 \<le> R" "R < 8380417" using r by (simp_all add: R_def)
  have R'eq: "R' = (R + uint z) mod 8380417"
    unfolding R'_def R_def r'_def by (rule uint_fieldAdd[OF r z])
  have R': "0 \<le> R'" "R' < 8380417" by (simp_all add: R'eq)
  have ur': "uint r' < 8380417" using R' by (simp add: R'_def)
  have Zb: "- 261888 < Z" "Z < 261888"
    using infinityNorm_centered[OF z nz, of 261888] by (simp_all add: Z_def)
  have z0: "0 \<le> uint z" by simp
  have "R' = R + uint z \<or> R' = R + uint z - 8380417"
  proof (cases "R + uint z < 8380417")
    case True
    then show ?thesis using R z0 by (simp add: R'eq)
  next
    case False
    then have "(R + uint z) mod 8380417 = R + uint z - 8380417"
      using R z by (intro int_mod_pos_eq[where q=1]) simp_all
    then show ?thesis by (simp add: R'eq)
  qed
  moreover have "uint z = Z \<or> uint z = Z + 8380417" by (simp add: Z_def)
  ultimately have rel: "R' = R + Z \<or> R' = R + Z - 8380417 \<or> R' = R + Z + 8380417"
    by linarith
  show ?thesis
  proof (cases "highBits r' 261888 = highBits r 261888")
    case True
    then have "makeHint z r 261888 = 0" unfolding makeHint_def r'_def Let_def by simp
    moreover have "useHint 0 r' 261888 = highBits r' 261888"
      using decompose16_closed(1)[OF ur'] by (simp add: useHint_def split_beta)
    ultimately show ?thesis using True by (simp only: r'_def)
  next
    case False
    then have mh: "makeHint z r 261888 = 1" unfolding makeHint_def r'_def Let_def by simp
    have "uint (highBits r' 261888) \<noteq> uint (highBits r 261888)"
      using False by (simp only: word_uint_eq_iff not_False_eq_True)
    then have neq: "hb_v 261888 R' mod 16 \<noteq> hb_v 261888 R mod 16"
      by (simp only: highBits16_closed[OF ur'] highBits16_closed[OF r] R_def R'_def not_False_eq_True)
    have "uint (useHint 1 r' 261888) =
     (if 0 < r0_v 261888 16 R' then (hb_v 261888 R' mod 16 + 1) mod 16
      else (hb_v 261888 R' mod 16 - 1) mod 16)"
      unfolding R'_def by (rule useHint_closed_16[OF ur']) simp
    also have "\<dots> = hb_v 261888 R mod 16"
      by (rule hint_arith_16[OF R R' Zb rel neq])
    also have "\<dots> = uint (highBits r 261888)"
      by (simp only: highBits16_closed[OF r] R_def)
    finally have "useHint 1 r' 261888 = highBits r 261888" by (simp only: word_uint_eq_iff)
    then show ?thesis by (simp only: mh r'_def)
  qed
qed


lemma useHint_closed_44:
  fixes r :: "32 word"
  assumes r: "uint r < 8380417" and h: "hint \<noteq> 0"
  shows "uint (useHint hint r 95232) =
     (if 0 < r0_v 95232 44 (uint r) then (hb_v 95232 (uint r) mod 44 + 1) mod 44
      else (hb_v 95232 (uint r) mod 44 - 1) mod 44)"
proof -
  define r1 where "r1 = highBits r 95232"
  define r0 where "r0 = snd (decompose r 95232)"
  define k where "k = hb_v 95232 (uint r) mod 44"
  have d: "decompose r 95232 = (r1, r0)"
    using decompose44_closed(1)[OF r] by (simp add: r1_def r0_def prod_eq_iff)
  have s0: "sint r0 = r0_v 95232 44 (uint r)"
    unfolding r0_def by (rule decompose44_closed(2)[OF r])
  have u1: "uint r1 = k" unfolding r1_def k_def by (rule highBits44_closed[OF r])
  have kr: "0 \<le> k" "k < 44" by (simp_all add: k_def)
  have w1: "r1 = word_of_int k" using u1 by (metis word_of_int_uint)
  have pos: "(0 <s r0) = (0 < r0_v 95232 44 (uint r))"
    by (simp add: word_sless_alt s0)
  have up: "uint (if r1 = 43 then 0 else r1 + 1) = (k + 1) mod 44"
    proof -
      have e: "(r1 = 43) = (k = 43)" using u1 by (simp add: word_uint_eq_iff)
      have "uint (r1 + 1) = k + 1" using kr u1 by (simp add: uint_word_ariths)
      then show ?thesis using kr e by auto
    qed
  have um: "uint (if r1 = 0 then 43 else r1 - 1) = (k - 1) mod 44"
    proof -
      have e: "(r1 = 0) = (k = 0)" using u1 by (simp add: word_uint_eq_iff)
      have "k \<noteq> 0 \<Longrightarrow> uint (r1 - 1) = k - 1" using kr u1 by (simp add: uint_word_ariths)
      then show ?thesis using kr e by auto
    qed
  show ?thesis
    using h up um by (simp add: useHint_def d pos gamma2QMinus1Div32_def k_def[symmetric])
qed

lemma hint_recover_44:
  fixes r z :: "32 word"
  assumes r: "uint r < 8380417" and z: "uint z < 8380417"
    and nz: "infinityNorm z < 95232"
  shows "useHint (makeHint z r 95232) (fieldAdd r z) 95232 = highBits r 95232"
proof -
  define R where "R = uint r"
  define r' where "r' = fieldAdd r z"
  define R' where "R' = uint r'"
  define Z where "Z = (if uint z \<le> 4190208 then uint z else uint z - 8380417)"
  have R: "0 \<le> R" "R < 8380417" using r by (simp_all add: R_def)
  have R'eq: "R' = (R + uint z) mod 8380417"
    unfolding R'_def R_def r'_def by (rule uint_fieldAdd[OF r z])
  have R': "0 \<le> R'" "R' < 8380417" by (simp_all add: R'eq)
  have ur': "uint r' < 8380417" using R' by (simp add: R'_def)
  have Zb: "- 95232 < Z" "Z < 95232"
    using infinityNorm_centered[OF z nz, of 95232] by (simp_all add: Z_def)
  have z0: "0 \<le> uint z" by simp
  have "R' = R + uint z \<or> R' = R + uint z - 8380417"
  proof (cases "R + uint z < 8380417")
    case True
    then show ?thesis using R z0 by (simp add: R'eq)
  next
    case False
    then have "(R + uint z) mod 8380417 = R + uint z - 8380417"
      using R z by (intro int_mod_pos_eq[where q=1]) simp_all
    then show ?thesis by (simp add: R'eq)
  qed
  moreover have "uint z = Z \<or> uint z = Z + 8380417" by (simp add: Z_def)
  ultimately have rel: "R' = R + Z \<or> R' = R + Z - 8380417 \<or> R' = R + Z + 8380417"
    by linarith
  show ?thesis
  proof (cases "highBits r' 95232 = highBits r 95232")
    case True
    then have "makeHint z r 95232 = 0" unfolding makeHint_def r'_def Let_def by simp
    moreover have "useHint 0 r' 95232 = highBits r' 95232"
      using decompose44_closed(1)[OF ur'] by (simp add: useHint_def split_beta)
    ultimately show ?thesis using True by (simp only: r'_def)
  next
    case False
    then have mh: "makeHint z r 95232 = 1" unfolding makeHint_def r'_def Let_def by simp
    have "uint (highBits r' 95232) \<noteq> uint (highBits r 95232)"
      using False by (simp only: word_uint_eq_iff not_False_eq_True)
    then have neq: "hb_v 95232 R' mod 44 \<noteq> hb_v 95232 R mod 44"
      by (simp only: highBits44_closed[OF ur'] highBits44_closed[OF r] R_def R'_def not_False_eq_True)
    have "uint (useHint 1 r' 95232) =
     (if 0 < r0_v 95232 44 R' then (hb_v 95232 R' mod 44 + 1) mod 44
      else (hb_v 95232 R' mod 44 - 1) mod 44)"
      unfolding R'_def by (rule useHint_closed_44[OF ur']) simp
    also have "\<dots> = hb_v 95232 R mod 44"
      by (rule hint_arith_44[OF R R' Zb rel neq])
    also have "\<dots> = uint (highBits r 95232)"
      by (simp only: highBits44_closed[OF r] R_def)
    finally have "useHint 1 r' 95232 = highBits r 95232" by (simp only: word_uint_eq_iff)
    then show ?thesis by (simp only: mh r'_def)
  qed
qed


lemma unat_less_iff_uint: "(unat (w::'a::len word) < k) = (uint w < int k)"
proof -
  have "(uint w < int k) = (int (unat w) < int k)" by (simp only: of_nat_unat)
  also have "\<dots> = (unat w < k)" by (rule of_nat_less_iff)
  finally show ?thesis by simp
qed

section \<open>Claims about field arithmetic and compression\<close>

text \<open>
  Claim C4. For every 64-bit integer \<open>x\<close> with \<open>x < q * 2^32\<close>, \<open>fieldReduce x\<close> is
  congruent to \<open>x * 2^(-32)\<close> modulo \<open>q\<close> (that is, multiplied back by \<open>2^32\<close> it is
  congruent to \<open>x\<close>) and lies in \<open>[0, q)\<close>; consequently for all \<open>a\<close>, \<open>b\<close> in
  \<open>[0, q)\<close>, \<open>fieldMul a b\<close> is congruent to \<open>a * b * R^(-1)\<close> modulo \<open>q\<close> with
  \<open>R = 2^32\<close>, and lies in \<open>[0, q)\<close>.
\<close>

theorem fieldReduce_montgomery:
  "(unat x < unat q * 2 ^ 32 \<longrightarrow>
      unat (fieldReduce x) < unat q \<and>
      (unat (fieldReduce x) * 2 ^ 32) mod unat q = unat x mod unat q) \<and>
   (unat a < unat q \<and> unat b < unat q \<longrightarrow>
      unat (fieldMul a b) < unat q \<and>
      (unat (fieldMul a b) * 2 ^ 32) mod unat q = (unat a * unat b) mod unat q)"
proof (intro conjI impI)
  assume x: "unat x < unat q * 2 ^ 32"
  then have x': "unat x < 8380417 * 4294967296" by (simp add: q_def)
  show "unat (fieldReduce x) < unat q"
    using unat_fieldReduce_aux[OF x'] by (simp add: q_def)
  show "(unat (fieldReduce x) * 2 ^ 32) mod unat q = unat x mod unat q"
    using unat_fieldReduce_aux[OF x'] by (simp add: q_def)
next
  assume ab: "unat a < unat q \<and> unat b < unat q"
  then have a: "unat a < 8380417" and b: "unat b < 8380417" by (simp_all add: q_def)
  have "unat a * unat b \<le> 8380416 * 8380416"
    using a b by (intro mult_le_mono) simp_all
  then have lt: "unat a * unat b < 8380417 * 4294967296" by simp
  have m: "unat ((ucast a :: 64 word) * ucast b) = unat a * unat b"
    using lt a b by (simp add: unat_word_ariths unsigned_ucast_eq take_bit_eq_mod)
  have r: "unat (fieldReduce ((ucast a :: 64 word) * ucast b)) < 8380417 \<and>
     (unat (fieldReduce ((ucast a :: 64 word) * ucast b)) * 4294967296) mod 8380417
       = (unat a * unat b) mod 8380417"
    using unat_fieldReduce_aux[of "(ucast a :: 64 word) * ucast b"] lt by (simp only: m)
  show "unat (fieldMul a b) < unat q"
    using r by (simp add: fieldMul_def q_def)
  show "(unat (fieldMul a b) * 2 ^ 32) mod unat q = (unat a * unat b) mod unat q"
    using r by (simp add: fieldMul_def q_def)
qed

theorem fieldReduce_montgomery_witness:
  "unat (fieldReduce 12345678901234) < unat q \<and>
   (unat (fieldReduce 12345678901234) * 2 ^ 32) mod unat q = unat (12345678901234 :: 64 word) mod unat q \<and>
   unat (fieldMul 4193792 4193792) < unat q \<and>
   (unat (fieldMul 4193792 4193792) * 2 ^ 32) mod unat q
      = (unat (4193792 :: 32 word) * unat (4193792 :: 32 word)) mod unat q"
  using fieldReduce_montgomery[of 12345678901234 4193792 4193792]
  by (simp add: q_def)

text \<open>
  Claim C3 (as amended). For every field element \<open>r\<close> in \<open>[0, q)\<close> and every \<open>gamma2\<close> in
  \<open>{(q-1)/32, (q-1)/88}\<close>: \<open>highBits r gamma2\<close> lies in \<open>[0, 16)\<close> respectively
  \<open>[0, 44)\<close>, and \<open>decompose r gamma2\<close> returns \<open>(r1, r0)\<close> with
  \<open>r1 = highBits r gamma2\<close>, \<open>r1 * 2 * gamma2 + r0\<close> congruent to \<open>r\<close> modulo \<open>q\<close>, and the
  signed residue \<open>r0\<close> in the closed interval \<open>[-gamma2, gamma2]\<close>; the lower end
  \<open>-gamma2\<close> is taken only at \<open>r = q - gamma2\<close>, where \<open>r1\<close> wraps to 0.
\<close>

theorem decompose_highBits_range:
  assumes "unat r < unat q"
    and "gamma2 = gamma2QMinus1Div32 \<or> gamma2 = gamma2QMinus1Div88"
  shows "unat (highBits r gamma2) < (if gamma2 = gamma2QMinus1Div32 then 16 else 44) \<and>
    (case decompose r gamma2 of (r1, r0) \<Rightarrow>
       r1 = highBits r gamma2 \<and>
       (uint r1 * 2 * uint gamma2 + sint r0) mod uint q = uint r \<and>
       - uint gamma2 \<le> sint r0 \<and> sint r0 \<le> uint gamma2 \<and>
       (sint r0 = - uint gamma2 \<longrightarrow> r = q - gamma2))"
proof -
  have r: "uint r < 8380417" using assms(1) by (simp add: q_def unat_lt_q_iff)
  have R: "0 \<le> uint r" "uint r < 8380417" using r by simp_all
  have c32: ?thesis if g: "gamma2 = gamma2QMinus1Div32"
  proof -
    define v where "v = hb_v 261888 (uint r)"
    obtain r1 r0 where d: "decompose r 261888 = (r1, r0)" by (cases "decompose r 261888")
    have hb: "uint (highBits r 261888) = v mod 16"
      unfolding v_def by (rule highBits16_closed[OF r])
    then have "uint (highBits r 261888) < 16" by simp
    then have h1: "unat (highBits r 261888) < 16"
      by (simp only: unat_less_iff_uint of_nat_numeral)
    have d1: "r1 = highBits r 261888"
      using decompose16_closed(1)[OF r] by (simp add: d)
    have d2: "sint r0 = r0_v 261888 16 (uint r)"
      using decompose16_closed(2)[OF r] by (simp add: d)
    have vb: "523776 * v \<le> uint r + 261887" "uint r + 261887 < 523776 * v + 523776"
      unfolding v_def using hb_v_bounds[of 261888 "uint r"] by simp_all
    have vr: "0 \<le> v" "v \<le> 16" unfolding v_def by (rule hb_v_range_16[OF R])+
    have "r0_v 261888 16 (uint r) = - 261888 \<longrightarrow> uint r = 8118529"
      using vb R vr by (auto simp: r0_v_def v_def[symmetric] split: if_splits)
    moreover have "uint r = 8118529 \<longrightarrow> r = 8118529"
      by (simp add: word_uint_eq_iff)
    ultimately have e: "sint r0 = - 261888 \<longrightarrow> r = 8118529" by (simp only: d2) blast
    have c: "(uint r1 * 2 * 261888 + sint r0) mod 8380417 = uint r"
      using r0_v_range_16(3)[OF R] by (simp add: d1 d2 hb v_def)
    have b: "- 261888 \<le> sint r0" "sint r0 \<le> 261888"
      using r0_v_range_16(1,2)[OF R] by (simp_all only: d2)
    show ?thesis
      unfolding g gamma2QMinus1Div32_def q_def d
      using h1 d1 c b e by (simp add: gamma2QMinus1Div32_def)
  qed
  have c88: ?thesis if g: "gamma2 = gamma2QMinus1Div88"
  proof -
    define v where "v = hb_v 95232 (uint r)"
    obtain r1 r0 where d: "decompose r 95232 = (r1, r0)" by (cases "decompose r 95232")
    have hb: "uint (highBits r 95232) = v mod 44"
      unfolding v_def by (rule highBits44_closed[OF r])
    then have "uint (highBits r 95232) < 44" by simp
    then have h1: "unat (highBits r 95232) < 44"
      by (simp only: unat_less_iff_uint of_nat_numeral)
    have d1: "r1 = highBits r 95232"
      using decompose44_closed(1)[OF r] by (simp add: d)
    have d2: "sint r0 = r0_v 95232 44 (uint r)"
      using decompose44_closed(2)[OF r] by (simp add: d)
    have vb: "190464 * v \<le> uint r + 95231" "uint r + 95231 < 190464 * v + 190464"
      unfolding v_def using hb_v_bounds[of 95232 "uint r"] by simp_all
    have vr: "0 \<le> v" "v \<le> 44" unfolding v_def by (rule hb_v_range_44[OF R])+
    have "r0_v 95232 44 (uint r) = - 95232 \<longrightarrow> uint r = 8285185"
      using vb R vr by (auto simp: r0_v_def v_def[symmetric] split: if_splits)
    moreover have "uint r = 8285185 \<longrightarrow> r = 8285185"
      by (simp add: word_uint_eq_iff)
    ultimately have e: "sint r0 = - 95232 \<longrightarrow> r = 8285185" by (simp only: d2) blast
    have c: "(uint r1 * 2 * 95232 + sint r0) mod 8380417 = uint r"
      using r0_v_range_44(3)[OF R] by (simp add: d1 d2 hb v_def)
    have b: "- 95232 \<le> sint r0" "sint r0 \<le> 95232"
      using r0_v_range_44(1,2)[OF R] by (simp_all only: d2)
    show ?thesis
      unfolding g gamma2QMinus1Div88_def q_def d
      using h1 d1 c b e by (simp add: gamma2QMinus1Div32_def)
  qed
  from assms(2) show ?thesis by (rule disjE) (erule c32, erule c88)
qed

theorem decompose_highBits_range_witness:
  "unat (highBits 8118529 gamma2QMinus1Div32) < 16 \<and>
   decompose 8118529 gamma2QMinus1Div32 = (0, - 261888) \<and>
   unat (highBits 1000000 gamma2QMinus1Div88) < 44 \<and>
   fst (decompose 1000000 gamma2QMinus1Div88) = highBits 1000000 gamma2QMinus1Div88"
  using decompose_highBits_range[of 8118529 gamma2QMinus1Div32]
    decompose_highBits_range[of 1000000 gamma2QMinus1Div88]
  by (simp add: q_def decompose_def highBits_def gamma2QMinus1Div32_def
      gamma2QMinus1Div88_def qMinus1Div2_def)

text \<open>
  The claim C3 as written asks for \<open>r0\<close> in the half-open interval \<open>(-gamma2, gamma2]\<close>.
  At \<open>r = q - gamma2 = 8118529\<close> with \<open>gamma2 = (q-1)/32\<close> the code returns
  \<open>r1 = 0\<close> and \<open>r0 = -gamma2\<close>.
\<close>

theorem decompose_open_interval_counterexample:
  "unat (8118529 :: 32 word) < unat q \<and>
   \<not> (- uint gamma2QMinus1Div32 < sint (snd (decompose 8118529 gamma2QMinus1Div32)))"
  by (simp add: q_def decompose_def highBits_def gamma2QMinus1Div32_def qMinus1Div2_def)

text \<open>
  Claim C10. For every \<open>gamma2\<close> in \<open>{(q-1)/32, (q-1)/88}\<close> and all field elements
  \<open>r\<close>, \<open>z\<close> in \<open>[0, q)\<close> with \<open>infinityNorm z < gamma2\<close>:
  \<open>useHint (makeHint z r gamma2) (fieldAdd r z) gamma2 = highBits r gamma2\<close>.
\<close>

theorem useHint_makeHint_highBits:
  assumes "gamma2 = gamma2QMinus1Div32 \<or> gamma2 = gamma2QMinus1Div88"
    and "unat r < unat q" and "unat z < unat q"
    and "infinityNorm z < gamma2"
  shows "useHint (makeHint z r gamma2) (fieldAdd r z) gamma2 = highBits r gamma2"
proof -
  have r: "uint r < 8380417" using assms(2) by (simp add: q_def unat_lt_q_iff)
  have z: "uint z < 8380417" using assms(3) by (simp add: q_def unat_lt_q_iff)
  from assms(1) show ?thesis
  proof
    assume g: "gamma2 = gamma2QMinus1Div32"
    then have "infinityNorm z < 261888" using assms(4) by (simp add: gamma2QMinus1Div32_def)
    then show ?thesis unfolding g gamma2QMinus1Div32_def by (rule hint_recover_16[OF r z])
  next
    assume g: "gamma2 = gamma2QMinus1Div88"
    then have "infinityNorm z < 95232" using assms(4) by (simp add: gamma2QMinus1Div88_def)
    then show ?thesis unfolding g gamma2QMinus1Div88_def by (rule hint_recover_44[OF r z])
  qed
qed

theorem useHint_makeHint_highBits_witness:
  "unat (262000 :: 32 word) < unat q \<and> unat (8380000 :: 32 word) < unat q \<and>
   infinityNorm 8380000 < gamma2QMinus1Div32 \<and>
   makeHint 8380000 262000 gamma2QMinus1Div32 = 1 \<and>
   useHint (makeHint 8380000 262000 gamma2QMinus1Div32) (fieldAdd 262000 8380000) gamma2QMinus1Div32
     = highBits 262000 gamma2QMinus1Div32"
  using useHint_makeHint_highBits[of gamma2QMinus1Div32 262000 8380000]
  by (simp add: q_def infinityNorm_def qMinus1Div2_def gamma2QMinus1Div32_def makeHint_def
      highBits_def fieldAdd_def fieldReduceOnce_def)


section \<open>Unpacking the eta encodings\<close>


lemma bit_eta2_const_list:
  "list_all (\<lambda>k. bit (9586980 :: 32 word) k = (k < 24 \<and> k mod 3 = 2)) [0..<32]"
  by code_simp

lemma bit_eta2_const: "bit (9586980 :: 32 word) k = (k < 24 \<and> k mod 3 = 2)"
proof (cases "k < 32")
  case True
  then show ?thesis using bit_eta2_const_list by (simp add: list_all_iff)
next
  case False
  then have "\<not> bit (9586980 :: 32 word) k" by (auto dest: bit_imp_le_length)
  then show ?thesis using False by simp
qed

lemma bit_eta4_const_list:
  "list_all (\<lambda>k. bit (2290649224 :: 32 word) k = (k mod 4 = 3)) [0..<32]"
  by code_simp

lemma bit_eta4_const: "bit (2290649224 :: 32 word) k = (k < 32 \<and> k mod 4 = 3)"
proof (cases "k < 32")
  case True
  then show ?thesis using bit_eta4_const_list by (simp add: list_all_iff)
next
  case False
  then have "\<not> bit (2290649224 :: 32 word) k" by (auto dest: bit_imp_le_length)
  then show ?thesis using False by simp
qed


lemma word_neq_0_bit: "(w \<noteq> (0::'a::len word)) = (\<exists>k. bit w k)"
proof
  assume "w \<noteq> 0"
  then have "\<not> (\<forall>k. bit w k = bit (0::'a word) k)" using bit_eqI[of w 0] by blast
  then show "\<exists>k. bit w k" by simp
next
  assume "\<exists>k. bit w k"
  then show "w \<noteq> 0" by auto
qed

lemma bit_check2_gen:
  fixes x c :: "32 word"
  shows "bit ((drop_bit 1 (x AND c) OR drop_bit 2 (x AND c)) AND x) k
     = (bit x k \<and> ((bit x (k + 1) \<and> bit c (k + 1)) \<or> (bit x (k + 2) \<and> bit c (k + 2))))"
  by (auto simp: bit_and_iff bit_or_iff bit_drop_bit_eq add.commute)

lemma bit_check3_gen:
  fixes x c :: "32 word"
  shows "bit ((drop_bit 1 (x AND c) OR drop_bit 2 (x AND c) OR drop_bit 3 (x AND c)) AND x) k
     = (bit x k \<and> ((bit x (k + 1) \<and> bit c (k + 1)) \<or> (bit x (k + 2) \<and> bit c (k + 2))
          \<or> (bit x (k + 3) \<and> bit c (k + 3))))"
  by (auto simp: bit_and_iff bit_or_iff bit_drop_bit_eq add.commute)

lemma eta2_check_bits:
  fixes x :: "32 word"
  shows "((drop_bit 1 (x AND 9586980) OR drop_bit 2 (x AND 9586980)) AND x \<noteq> 0)
       = (\<exists>j<8. bit x (3 * j + 2) \<and> (bit x (3 * j + 1) \<or> bit x (3 * j)))"
    (is "?L = ?R")
proof -
  have b: "bit ((drop_bit 1 (x AND 9586980) OR drop_bit 2 (x AND 9586980)) AND x) k
     = (bit x k \<and> ((bit x (k + 1) \<and> k + 1 < 24 \<and> (k + 1) mod 3 = 2)
                   \<or> (bit x (k + 2) \<and> k + 2 < 24 \<and> (k + 2) mod 3 = 2)))" for k
    by (simp only: bit_check2_gen bit_eta2_const)
  show ?thesis
  proof
    assume ?L
    then obtain k where k: "bit x k"
       "(bit x (k + 1) \<and> k + 1 < 24 \<and> (k + 1) mod 3 = 2)
         \<or> (bit x (k + 2) \<and> k + 2 < 24 \<and> (k + 2) mod 3 = 2)"
      unfolding word_neq_0_bit b by blast
    from k(2) show ?R
    proof
      assume a: "bit x (k + 1) \<and> k + 1 < 24 \<and> (k + 1) mod 3 = 2"
      define j where "j = (k + 1) div 3"
      have "3 * j + (k + 1) mod 3 = k + 1" unfolding j_def by (rule mult_div_mod_eq)
      then have "k + 1 = 3 * j + 2" using a by simp
      then have "k = 3 * j + 1" "j < 8" using a by simp_all
      then show ?R using a k(1) by (intro exI[of _ j]) (simp add: \<open>k + 1 = 3 * j + 2\<close>[symmetric])
    next
      assume a: "bit x (k + 2) \<and> k + 2 < 24 \<and> (k + 2) mod 3 = 2"
      define j where "j = (k + 2) div 3"
      have "3 * j + (k + 2) mod 3 = k + 2" unfolding j_def by (rule mult_div_mod_eq)
      then have "k + 2 = 3 * j + 2" using a by simp
      then have "k = 3 * j" "j < 8" using a by simp_all
      then show ?R using a k(1) by (intro exI[of _ j]) simp
    qed
  next
    assume ?R
    then obtain j where j: "j < 8" "bit x (3 * j + 2)" "bit x (3 * j + 1) \<or> bit x (3 * j)"
      by blast
    from j(3) show ?L
    proof
      assume f0: "bit x (3 * j + 1)"
      have f1: "bit x (3 * j + 1 + 1)" using j(2) by (simp add: add.assoc)
      have f2: "3 * j + 1 + 1 < 24" using j(1) by simp
      have f3: "(3 * j + 1 + 1) mod 3 = 2" by presburger
      have "bit ((drop_bit 1 (x AND 9586980) OR drop_bit 2 (x AND 9586980)) AND x) (3 * j + 1)"
        unfolding b using f0 f1 f2 f3 by blast
      then show ?L unfolding word_neq_0_bit by blast
    next
      assume f0: "bit x (3 * j)"
      have f2: "3 * j + 2 < 24" using j(1) by simp
      have f3: "(3 * j + 2) mod 3 = 2" by presburger
      have "bit ((drop_bit 1 (x AND 9586980) OR drop_bit 2 (x AND 9586980)) AND x) (3 * j)"
        unfolding b using f0 j(2) f2 f3 by blast
      then show ?L unfolding word_neq_0_bit by blast
    qed
  qed
qed


lemma eta4_check_bits:
  fixes x :: "32 word"
  shows "((drop_bit 1 (x AND 2290649224) OR drop_bit 2 (x AND 2290649224)
            OR drop_bit 3 (x AND 2290649224)) AND x \<noteq> 0)
       = (\<exists>j<8. bit x (4 * j + 3) \<and> (bit x (4 * j + 2) \<or> bit x (4 * j + 1) \<or> bit x (4 * j)))"
    (is "?L = ?R")
proof -
  let ?w = "(drop_bit 1 (x AND 2290649224) OR drop_bit 2 (x AND 2290649224)
            OR drop_bit 3 (x AND 2290649224)) AND x"
  have b: "bit ?w k
     = (bit x k \<and> ((bit x (k + 1) \<and> k + 1 < 32 \<and> (k + 1) mod 4 = 3)
                   \<or> (bit x (k + 2) \<and> k + 2 < 32 \<and> (k + 2) mod 4 = 3)
                   \<or> (bit x (k + 3) \<and> k + 3 < 32 \<and> (k + 3) mod 4 = 3)))" for k
    by (simp only: bit_check3_gen bit_eta4_const)
  show ?thesis
  proof
    assume ?L
    then obtain k where k: "bit x k"
       "(bit x (k + 1) \<and> k + 1 < 32 \<and> (k + 1) mod 4 = 3)
         \<or> (bit x (k + 2) \<and> k + 2 < 32 \<and> (k + 2) mod 4 = 3)
         \<or> (bit x (k + 3) \<and> k + 3 < 32 \<and> (k + 3) mod 4 = 3)"
      unfolding word_neq_0_bit b by blast
    have r: ?R if a: "bit x (k + t) \<and> k + t < 32 \<and> (k + t) mod 4 = 3" and t: "t = 1 \<or> t = 2 \<or> t = 3" for t
    proof -
      define j where "j = (k + t) div 4"
      have "4 * j + (k + t) mod 4 = k + t" unfolding j_def by (rule mult_div_mod_eq)
      then have e: "k + t = 4 * j + 3" using a by simp
      then have j8: "j < 8" using a by simp
      have b3: "bit x (4 * j + 3)" using a e by simp
      have "k = 4 * j + 2 \<or> k = 4 * j + 1 \<or> k = 4 * j" using e t by auto
      then have "bit x (4 * j + 2) \<or> bit x (4 * j + 1) \<or> bit x (4 * j)" using k(1) by auto
      then show ?R using j8 b3 by blast
    qed
    from k(2) show ?R using r[of 1] r[of 2] r[of 3] by blast
  next
    assume ?R
    then obtain j where j: "j < 8" "bit x (4 * j + 3)"
       "bit x (4 * j + 2) \<or> bit x (4 * j + 1) \<or> bit x (4 * j)"
      by blast
    have f2: "4 * j + 3 < 32" using j(1) by simp
    have f3: "(4 * j + 3) mod 4 = 3" by presburger
    have e: "4 * j + 2 + 1 = 4 * j + 3" "4 * j + 1 + 2 = 4 * j + 3" by simp_all
    from j(3) have "\<exists>k. bit ?w k"
    proof (elim disjE)
      assume f0: "bit x (4 * j + 2)"
      have "bit ?w (4 * j + 2)" unfolding b e using f0 j(2) f2 f3 by blast
      then show ?thesis by blast
    next
      assume f0: "bit x (4 * j + 1)"
      have "bit ?w (4 * j + 1)" unfolding b e using f0 j(2) f2 f3 by blast
      then show ?thesis by blast
    next
      assume f0: "bit x (4 * j)"
      have "bit ?w (4 * j)" unfolding b using f0 j(2) f2 f3 by blast
      then show ?thesis by blast
    qed
    then show ?L unfolding word_neq_0_bit .
  qed
qed

text \<open>The value of a field of a word, from its bits.\<close>

lemma unat_take_bit_3:
  fixes y :: "32 word"
  shows "unat (y AND 7) = (if bit y 0 then 1 else 0) + (if bit y 1 then 2 else 0) + (if bit y 2 then 4 else 0)"
proof -
  have "(7 :: 32 word) = mask 3" by (simp add: mask_eq_exp_minus_1)
  then have "y AND 7 = take_bit 3 y" by (simp only: take_bit_eq_mask)
  then have "unat (y AND 7) = take_bit 3 (unat y)" by (simp only: unsigned_take_bit_eq)
  also have "\<dots> = (\<Sum>k = 0..<3. push_bit k (of_bool (bit (unat y) k)))"
    by (rule take_bit_sum)
  also have "\<dots> = (if bit y 0 then 1 else 0) + (if bit y 1 then 2 else 0) + (if bit y 2 then 4 else 0)"
    by (simp add: eval_nat_numeral bit_unsigned_iff push_bit_eq_mult)
  finally show ?thesis .
qed

lemma unat_take_bit_4:
  fixes y :: "32 word"
  shows "unat (y AND 15) = (if bit y 0 then 1 else 0) + (if bit y 1 then 2 else 0)
      + (if bit y 2 then 4 else 0) + (if bit y 3 then 8 else 0)"
proof -
  have "(15 :: 32 word) = mask 4" by (simp add: mask_eq_exp_minus_1)
  then have "y AND 15 = take_bit 4 y" by (simp only: take_bit_eq_mask)
  then have "unat (y AND 15) = take_bit 4 (unat y)" by (simp only: unsigned_take_bit_eq)
  also have "\<dots> = (\<Sum>k = 0..<4. push_bit k (of_bool (bit (unat y) k)))"
    by (rule take_bit_sum)
  also have "\<dots> = (if bit y 0 then 1 else 0) + (if bit y 1 then 2 else 0)
      + (if bit y 2 then 4 else 0) + (if bit y 3 then 8 else 0)"
    by (simp add: eval_nat_numeral bit_unsigned_iff push_bit_eq_mult)
  finally show ?thesis .
qed


lemma bit_byte_ge8: "8 \<le> k \<Longrightarrow> \<not> bit (b :: byte) k"
  by (auto dest: bit_imp_le_length)

lemma bit_le3_aux:
  fixes b0 b1 b2 :: byte
  assumes r: "r < 8"
  shows "bit ((ucast b0 :: 32 word) OR push_bit 8 (ucast b1) OR push_bit 16 (ucast b2)) r = bit b0 r"
    and "bit ((ucast b0 :: 32 word) OR push_bit 8 (ucast b1) OR push_bit 16 (ucast b2)) (8 + r) = bit b1 r"
    and "bit ((ucast b0 :: 32 word) OR push_bit 8 (ucast b1) OR push_bit 16 (ucast b2)) (16 + r) = bit b2 r"
  using r by (simp_all add: bit_or_iff bit_push_bit_iff bit_word_ucast_iff bit_byte_ge8)

lemma bit_le3:
  fixes b0 b1 b2 :: byte
  assumes "k < 24"
  shows "bit ((ucast b0 :: 32 word) OR push_bit 8 (ucast b1) OR push_bit 16 (ucast b2)) k
       = bit ([b0, b1, b2] ! (k div 8)) (k mod 8)"
proof -
  define a where "a = k div 8"
  define r where "r = k mod 8"
  have k: "k = 8 * a + r" by (simp add: a_def r_def)
  have r: "r < 8" by (simp add: r_def)
  have "a < 3" using assms by (simp add: a_def)
  then consider "a = 0" | "a = 1" | "a = 2" by linarith
  then show ?thesis
    unfolding a_def[symmetric] r_def[symmetric]
    by cases (simp_all add: k bit_le3_aux[OF r])
qed

lemma bit_le4_aux:
  fixes b0 b1 b2 b3 :: byte
  assumes r: "r < 8"
  shows "bit ((ucast b0 :: 32 word) OR push_bit 8 (ucast b1) OR push_bit 16 (ucast b2) OR push_bit 24 (ucast b3)) r = bit b0 r"
    and "bit ((ucast b0 :: 32 word) OR push_bit 8 (ucast b1) OR push_bit 16 (ucast b2) OR push_bit 24 (ucast b3)) (8 + r) = bit b1 r"
    and "bit ((ucast b0 :: 32 word) OR push_bit 8 (ucast b1) OR push_bit 16 (ucast b2) OR push_bit 24 (ucast b3)) (16 + r) = bit b2 r"
    and "bit ((ucast b0 :: 32 word) OR push_bit 8 (ucast b1) OR push_bit 16 (ucast b2) OR push_bit 24 (ucast b3)) (24 + r) = bit b3 r"
  using r by (simp_all add: bit_or_iff bit_push_bit_iff bit_word_ucast_iff bit_byte_ge8)

lemma bit_le4:
  fixes b0 b1 b2 b3 :: byte
  assumes "k < 32"
  shows "bit ((ucast b0 :: 32 word) OR push_bit 8 (ucast b1) OR push_bit 16 (ucast b2) OR push_bit 24 (ucast b3)) k
       = bit ([b0, b1, b2, b3] ! (k div 8)) (k mod 8)"
proof -
  define a where "a = k div 8"
  define r where "r = k mod 8"
  have k: "k = 8 * a + r" by (simp add: a_def r_def)
  have r: "r < 8" by (simp add: r_def)
  have "a < 4" using assms by (simp add: a_def)
  then consider "a = 0" | "a = 1" | "a = 2" | "a = 3" by linarith
  then show ?thesis
    unfolding a_def[symmetric] r_def[symmetric]
    by cases (simp_all add: k bit_le4_aux[OF r])
qed


lemma field_at_3:
  "field_at 3 b k = (if bit_at b (3 * k) then 1 else 0) + (if bit_at b (3 * k + 1) then 2 else 0)
     + (if bit_at b (3 * k + 2) then 4 else 0)"
proof -
  have "[0..<3] = [0, 1, 2]" by (simp add: upt_rec)
  then show ?thesis by (simp add: field_at_def)
qed

lemma field_at_4:
  "field_at 4 b k = (if bit_at b (4 * k) then 1 else 0) + (if bit_at b (4 * k + 1) then 2 else 0)
     + (if bit_at b (4 * k + 2) then 4 else 0) + (if bit_at b (4 * k + 3) then 8 else 0)"
proof -
  have "[0..<4] = [0, 1, 2, 3]" by (simp add: upt_rec)
  then show ?thesis by (simp add: field_at_def)
qed

lemma nth3: "k < 24 \<Longrightarrow> [b ! 0, b ! 1, b ! 2] ! (k div 8) = b ! (k div 8)"
proof -
  assume "k < 24"
  then have "k div 8 < 3" by simp
  then consider "k div 8 = 0" | "k div 8 = 1" | "k div 8 = 2" by linarith
  then show ?thesis by cases simp_all
qed

lemma nth4: "k < 32 \<Longrightarrow> [b ! 0, b ! 1, b ! 2, b ! 3] ! (k div 8) = b ! (k div 8)"
proof -
  assume "k < 32"
  then have "k div 8 < 4" by simp
  then consider "k div 8 = 0" | "k div 8 = 1" | "k div 8 = 2" | "k div 8 = 3" by linarith
  then show ?thesis by cases simp_all
qed

lemma bit_le24: "k < 24 \<Longrightarrow> bit (le24 b) k = bit_at b k"
  unfolding le24_def bit_at_def by (simp only: bit_le3 nth3)

lemma bit_le32: "k < 32 \<Longrightarrow> bit (le32 b) k = bit_at b k"
  unfolding le32_def bit_at_def by (simp only: bit_le4 nth4)

lemma le24_field:
  assumes "j < 8"
  shows "unat (drop_bit (3 * j) (le24 b) AND 7) = field_at 3 b j"
proof -
  have "3 * j < 24" "3 * j + 1 < 24" "3 * j + 2 < 24" using assms by simp_all
  then show ?thesis
    by (simp add: unat_take_bit_3 field_at_3 bit_drop_bit_eq bit_le24)
qed

lemma le32_field:
  assumes "j < 8"
  shows "unat (drop_bit (4 * j) (le32 b) AND 15) = field_at 4 b j"
proof -
  have "4 * j < 32" "4 * j + 1 < 32" "4 * j + 2 < 32" "4 * j + 3 < 32" using assms by simp_all
  then show ?thesis
    by (simp add: unat_take_bit_4 field_at_4 bit_drop_bit_eq bit_le32)
qed

lemma field3_ge5:
  "(5 \<le> field_at 3 b j) = (bit_at b (3 * j + 2) \<and> (bit_at b (3 * j + 1) \<or> bit_at b (3 * j)))"
  by (auto simp: field_at_3)

lemma field4_ge9:
  "(9 \<le> field_at 4 b j) = (bit_at b (4 * j + 3) \<and> (bit_at b (4 * j + 2) \<or> bit_at b (4 * j + 1) \<or> bit_at b (4 * j)))"
  by (auto simp: field_at_4)

lemma eta2_check:
  "((drop_bit 1 (le24 b AND 9586980) OR drop_bit 2 (le24 b AND 9586980)) AND le24 b \<noteq> 0)
     = (\<exists>j<8. 5 \<le> field_at 3 b j)"
proof -
  have "(bit (le24 b) (3 * j + 2) \<and> (bit (le24 b) (3 * j + 1) \<or> bit (le24 b) (3 * j)))
      = (5 \<le> field_at 3 b j)" if "j < 8" for j
  proof -
    have "3 * j < 24" "3 * j + 1 < 24" "3 * j + 2 < 24" using that by simp_all
    then show ?thesis by (simp only: bit_le24 field3_ge5)
  qed
  then show ?thesis unfolding eta2_check_bits by blast
qed

lemma eta4_check:
  "((drop_bit 1 (le32 b AND 2290649224) OR drop_bit 2 (le32 b AND 2290649224)
       OR drop_bit 3 (le32 b AND 2290649224)) AND le32 b \<noteq> 0)
     = (\<exists>j<8. 9 \<le> field_at 4 b j)"
proof -
  have "(bit (le32 b) (4 * j + 3) \<and> (bit (le32 b) (4 * j + 2) \<or> bit (le32 b) (4 * j + 1) \<or> bit (le32 b) (4 * j)))
      = (9 \<le> field_at 4 b j)" if "j < 8" for j
  proof -
    have "4 * j < 32" "4 * j + 1 < 32" "4 * j + 2 < 32" "4 * j + 3 < 32" using that by simp_all
    then show ?thesis by (simp only: bit_le32 field4_ge9)
  qed
  then show ?thesis unfolding eta4_check_bits by blast
qed

lemma bit_at_drop:
  assumes "m \<le> length b"
  shows "bit_at (drop m b) i = bit_at b (8 * m + i)"
  using assms by (simp add: bit_at_def)

lemma field_at_drop3:
  assumes "3 * g \<le> length b"
  shows "field_at 3 (drop (3 * g) b) j = field_at 3 b (8 * g + j)"
  using assms by (simp add: field_at_3 bit_at_drop algebra_simps)

lemma field_at_drop4:
  assumes "4 * g \<le> length b"
  shows "field_at 4 (drop (4 * g) b) j = field_at 4 b (8 * g + j)"
  using assms by (simp add: field_at_4 bit_at_drop algebra_simps)



lemma unpackEta_coeffs_length: "length (unpackEta_coeffs c w m x i j f) = length f"
proof (induction c w m x i j f rule: unpackEta_coeffs.induct)
  case (1 c w m x i j f)
  show ?case
    using 1 by (subst unpackEta_coeffs.simps) simp
qed

lemma unpackEta_coeffs_nth:
  assumes "i + 8 \<le> length f" "p < length f"
  shows "unpackEta_coeffs c w m x i j f ! p =
     (if i + j \<le> p \<and> p < i + 8 then fieldSub c (drop_bit (w * (p - i)) x AND m) else f ! p)"
  using assms
proof (induction c w m x i j f rule: unpackEta_coeffs.induct)
  case (1 c w m x i j f)
  show ?case
  proof (cases "j < 8")
    case True
    let ?f' = "f[i + j := fieldSub c (drop_bit (w * j) x AND m)]"
    have "unpackEta_coeffs c w m x i j f ! p = unpackEta_coeffs c w m x i (j + 1) ?f' ! p"
      using True by (subst unpackEta_coeffs.simps) simp
    also have "\<dots> = (if i + (j + 1) \<le> p \<and> p < i + 8 then fieldSub c (drop_bit (w * (p - i)) x AND m) else ?f' ! p)"
      using 1 True by simp
    also have "\<dots> = (if i + j \<le> p \<and> p < i + 8 then fieldSub c (drop_bit (w * (p - i)) x AND m) else f ! p)"
      using 1(2,3) True by (auto simp: nth_list_update)
    finally show ?thesis .
  next
    case False
    then have nc: "(i + j \<le> p \<and> p < i + 8) = False" by auto
    have e: "unpackEta_coeffs c w m x i j f = f"
      using False by (subst unpackEta_coeffs.simps) simp
    show ?thesis by (simp only: e nc if_False)
  qed
qed


lemma word_of_unat_eq: "unat (w :: 32 word) = k \<Longrightarrow> w = of_nat k"
  by auto

lemma eta2_loop:
  assumes "length b0 = 96" "length f = 256" "g \<le> 32" "\<forall>p<8 * g. f ! p = coef_eta 2 3 b0 p"
  shows "unpackEta2_loop (8 * g) (drop (3 * g) b0) f =
     (if \<exists>k<256. 8 * g \<le> k \<and> 5 \<le> field_at 3 b0 k then Inl InvalidEtaEncoding
      else Inr (map (coef_eta 2 3 b0) [0..<256]))"
  using assms
proof (induction "32 - g" arbitrary: g f)
  case 0
  then have g: "g = 32" by simp
  have "f = map (coef_eta 2 3 b0) [0..<256]"
    using 0 g by (intro nth_equalityI) simp_all
  moreover have "unpackEta2_loop (8 * g) (drop (3 * g) b0) f = Inr f"
    by (subst unpackEta2_loop.simps) (simp add: g n_def)
  ultimately show ?case using g by simp
next
  case (Suc m)
  then have g: "g < 32" by simp
  define b where "b = drop (3 * g) b0"
  have lb: "\<not> length b < 3" using g Suc.prems(1) by (simp add: b_def)
  have i: "8 * g < n" using g by (simp add: n_def)
  define x where "x = le24 b"
  define f' where "f' = unpackEta_coeffs 2 3 7 x (8 * g) 0 f"
  have step: "unpackEta2_loop (8 * g) b f =
     (if (drop_bit 1 (x AND 9586980) OR drop_bit 2 (x AND 9586980)) AND x \<noteq> 0
      then Inl InvalidEtaEncoding else unpackEta2_loop (8 * g + 8) (drop 3 b) f')"
    using lb i by (subst unpackEta2_loop.simps) (simp add: Let_def x_def le24_def f'_def)
  have chk: "((drop_bit 1 (x AND 9586980) OR drop_bit 2 (x AND 9586980)) AND x \<noteq> 0)
      = (\<exists>j<8. 5 \<le> field_at 3 b0 (8 * g + j))"
  proof -
    have "3 * g \<le> length b0" using g Suc.prems(1) by simp
    then show ?thesis unfolding x_def eta2_check b_def by (simp only: field_at_drop3)
  qed
  have fld: "field_at 3 b j = field_at 3 b0 (8 * g + j)" for j
    unfolding b_def using g Suc.prems(1) by (intro field_at_drop3) simp
  show ?case
  proof (cases "\<exists>j<8. 5 \<le> field_at 3 b0 (8 * g + j)")
    case True
    then obtain j where j: "j < 8" "5 \<le> field_at 3 b0 (8 * g + j)" by blast
    then have "8 * g + j < 256 \<and> 8 * g \<le> 8 * g + j \<and> 5 \<le> field_at 3 b0 (8 * g + j)"
      using g by simp
    then have ex: "\<exists>k<256. 8 * g \<le> k \<and> 5 \<le> field_at 3 b0 k" by blast
    have "unpackEta2_loop (8 * g) b f = Inl InvalidEtaEncoding"
      by (simp only: step chk True if_True)
    then show ?thesis by (simp only: b_def ex if_True)
  next
    case False
    have lf': "length f' = 256" by (simp add: f'_def unpackEta_coeffs_length Suc.prems(2))
    have inv: "\<forall>p<8 * (g + 1). f' ! p = coef_eta 2 3 b0 p"
    proof (intro allI impI)
      fix p assume p: "p < 8 * (g + 1)"
      have pl: "p < length f" "8 * g + 8 \<le> length f" using p g Suc.prems(2) by simp_all
      show "f' ! p = coef_eta 2 3 b0 p"
      proof (cases "p < 8 * g")
        case True
        then show ?thesis using Suc.prems(4) pl by (simp add: f'_def unpackEta_coeffs_nth)
      next
        case False
        define j where "j = p - 8 * g"
        have j: "j < 8" "p = 8 * g + j" using False p by (simp_all add: j_def)
        have "f' ! p = fieldSub 2 (drop_bit (3 * j) x AND 7)"
          using pl False p by (simp add: f'_def unpackEta_coeffs_nth j_def)
        moreover have "unat (drop_bit (3 * j) x AND 7) = field_at 3 b0 p"
          using le24_field[OF j(1), of b] by (simp add: x_def fld j(2))
        then have "drop_bit (3 * j) x AND 7 = of_nat (field_at 3 b0 p)"
          by (rule word_of_unat_eq)
        ultimately show ?thesis by (simp add: coef_eta_def)
      qed
    qed
    have ih: "unpackEta2_loop (8 * (g + 1)) (drop (3 * (g + 1)) b0) f' =
     (if \<exists>k<256. 8 * (g + 1) \<le> k \<and> 5 \<le> field_at 3 b0 k then Inl InvalidEtaEncoding
      else Inr (map (coef_eta 2 3 b0) [0..<256]))"
      using Suc.hyps(2) g Suc.prems(1) lf' inv by (intro Suc.hyps(1)) simp_all
    have dr: "drop 3 b = drop (3 * (g + 1)) b0" by (simp add: b_def add.commute)
    have eqs: "8 * g + 8 = 8 * (g + 1)" by simp
    have ex_eq: "(\<exists>k<256. 8 * (g + 1) \<le> k \<and> 5 \<le> field_at 3 b0 k)
        = (\<exists>k<256. 8 * g \<le> k \<and> 5 \<le> field_at 3 b0 k)"
    proof
      assume "\<exists>k<256. 8 * (g + 1) \<le> k \<and> 5 \<le> field_at 3 b0 k"
      then show "\<exists>k<256. 8 * g \<le> k \<and> 5 \<le> field_at 3 b0 k" by auto
    next
      assume "\<exists>k<256. 8 * g \<le> k \<and> 5 \<le> field_at 3 b0 k"
      then obtain k where k: "k < 256" "8 * g \<le> k" "5 \<le> field_at 3 b0 k" by blast
      have "\<not> k < 8 * g + 8"
      proof
        assume "k < 8 * g + 8"
        then have "k - 8 * g < 8" "k = 8 * g + (k - 8 * g)" using k(2) by simp_all
        then show False using False k(3) by metis
      qed
      then show "\<exists>k<256. 8 * (g + 1) \<le> k \<and> 5 \<le> field_at 3 b0 k" using k by auto
    qed
    have "unpackEta2_loop (8 * g) (drop (3 * g) b0) f = unpackEta2_loop (8 * g) b f"
      by (simp only: b_def)
    also have "\<dots> = unpackEta2_loop (8 * g + 8) (drop 3 b) f'"
      by (simp only: step chk False if_False)
    also have "\<dots> = unpackEta2_loop (8 * (g + 1)) (drop (3 * (g + 1)) b0) f'"
      by (simp only: dr eqs)
    also have "\<dots> = (if \<exists>k<256. 8 * (g + 1) \<le> k \<and> 5 \<le> field_at 3 b0 k then Inl InvalidEtaEncoding
      else Inr (map (coef_eta 2 3 b0) [0..<256]))" by (rule ih)
    also have "\<dots> = (if \<exists>k<256. 8 * g \<le> k \<and> 5 \<le> field_at 3 b0 k then Inl InvalidEtaEncoding
      else Inr (map (coef_eta 2 3 b0) [0..<256]))" by (simp only: ex_eq)
    finally show ?thesis .
  qed
qed

lemma eta4_loop:
  assumes "length b0 = 128" "length f = 256" "g \<le> 32" "\<forall>p<8 * g. f ! p = coef_eta 4 4 b0 p"
  shows "unpackEta4_loop (8 * g) (drop (4 * g) b0) f =
     (if \<exists>k<256. 8 * g \<le> k \<and> 9 \<le> field_at 4 b0 k then Inl InvalidEtaEncoding
      else Inr (map (coef_eta 4 4 b0) [0..<256]))"
  using assms
proof (induction "32 - g" arbitrary: g f)
  case 0
  then have g: "g = 32" by simp
  have "f = map (coef_eta 4 4 b0) [0..<256]"
    using 0 g by (intro nth_equalityI) simp_all
  moreover have "unpackEta4_loop (8 * g) (drop (4 * g) b0) f = Inr f"
    by (subst unpackEta4_loop.simps) (simp add: g n_def)
  ultimately show ?case using g by simp
next
  case (Suc m)
  then have g: "g < 32" by simp
  define b where "b = drop (4 * g) b0"
  have lb: "\<not> length b < 4" using g Suc.prems(1) by (simp add: b_def)
  have i: "8 * g < n" using g by (simp add: n_def)
  define x where "x = le32 b"
  define f' where "f' = unpackEta_coeffs 4 4 15 x (8 * g) 0 f"
  have step: "unpackEta4_loop (8 * g) b f =
     (if (drop_bit 1 (x AND 2290649224) OR drop_bit 2 (x AND 2290649224) OR drop_bit 3 (x AND 2290649224)) AND x \<noteq> 0
      then Inl InvalidEtaEncoding else unpackEta4_loop (8 * g + 8) (drop 4 b) f')"
    using lb i by (subst unpackEta4_loop.simps) (simp add: Let_def x_def le32_def f'_def)
  have chk: "((drop_bit 1 (x AND 2290649224) OR drop_bit 2 (x AND 2290649224) OR drop_bit 3 (x AND 2290649224)) AND x \<noteq> 0)
      = (\<exists>j<8. 9 \<le> field_at 4 b0 (8 * g + j))"
  proof -
    have "4 * g \<le> length b0" using g Suc.prems(1) by simp
    then show ?thesis unfolding x_def eta4_check b_def by (simp only: field_at_drop4)
  qed
  have fld: "field_at 4 b j = field_at 4 b0 (8 * g + j)" for j
    unfolding b_def using g Suc.prems(1) by (intro field_at_drop4) simp
  show ?case
  proof (cases "\<exists>j<8. 9 \<le> field_at 4 b0 (8 * g + j)")
    case True
    then obtain j where j: "j < 8" "9 \<le> field_at 4 b0 (8 * g + j)" by blast
    then have "8 * g + j < 256 \<and> 8 * g \<le> 8 * g + j \<and> 9 \<le> field_at 4 b0 (8 * g + j)"
      using g by simp
    then have ex: "\<exists>k<256. 8 * g \<le> k \<and> 9 \<le> field_at 4 b0 k" by blast
    have "unpackEta4_loop (8 * g) b f = Inl InvalidEtaEncoding"
      by (simp only: step chk True if_True)
    then show ?thesis by (simp only: b_def ex if_True)
  next
    case False
    have lf': "length f' = 256" by (simp add: f'_def unpackEta_coeffs_length Suc.prems(2))
    have inv: "\<forall>p<8 * (g + 1). f' ! p = coef_eta 4 4 b0 p"
    proof (intro allI impI)
      fix p assume p: "p < 8 * (g + 1)"
      have pl: "p < length f" "8 * g + 8 \<le> length f" using p g Suc.prems(2) by simp_all
      show "f' ! p = coef_eta 4 4 b0 p"
      proof (cases "p < 8 * g")
        case True
        then show ?thesis using Suc.prems(4) pl by (simp add: f'_def unpackEta_coeffs_nth)
      next
        case False
        define j where "j = p - 8 * g"
        have j: "j < 8" "p = 8 * g + j" using False p by (simp_all add: j_def)
        have "f' ! p = fieldSub 4 (drop_bit (4 * j) x AND 15)"
          using pl False p by (simp add: f'_def unpackEta_coeffs_nth j_def)
        moreover have "unat (drop_bit (4 * j) x AND 15) = field_at 4 b0 p"
          using le32_field[OF j(1), of b] by (simp add: x_def fld j(2))
        then have "drop_bit (4 * j) x AND 15 = of_nat (field_at 4 b0 p)"
          by (rule word_of_unat_eq)
        ultimately show ?thesis by (simp add: coef_eta_def)
      qed
    qed
    have ih: "unpackEta4_loop (8 * (g + 1)) (drop (4 * (g + 1)) b0) f' =
     (if \<exists>k<256. 8 * (g + 1) \<le> k \<and> 9 \<le> field_at 4 b0 k then Inl InvalidEtaEncoding
      else Inr (map (coef_eta 4 4 b0) [0..<256]))"
      using Suc.hyps(2) g Suc.prems(1) lf' inv by (intro Suc.hyps(1)) simp_all
    have dr: "drop 4 b = drop (4 * (g + 1)) b0" by (simp add: b_def add.commute)
    have eqs: "8 * g + 8 = 8 * (g + 1)" by simp
    have ex_eq: "(\<exists>k<256. 8 * (g + 1) \<le> k \<and> 9 \<le> field_at 4 b0 k)
        = (\<exists>k<256. 8 * g \<le> k \<and> 9 \<le> field_at 4 b0 k)"
    proof
      assume "\<exists>k<256. 8 * (g + 1) \<le> k \<and> 9 \<le> field_at 4 b0 k"
      then show "\<exists>k<256. 8 * g \<le> k \<and> 9 \<le> field_at 4 b0 k" by auto
    next
      assume "\<exists>k<256. 8 * g \<le> k \<and> 9 \<le> field_at 4 b0 k"
      then obtain k where k: "k < 256" "8 * g \<le> k" "9 \<le> field_at 4 b0 k" by blast
      have "\<not> k < 8 * g + 8"
      proof
        assume "k < 8 * g + 8"
        then have "k - 8 * g < 8" "k = 8 * g + (k - 8 * g)" using k(2) by simp_all
        then show False using False k(3) by metis
      qed
      then show "\<exists>k<256. 8 * (g + 1) \<le> k \<and> 9 \<le> field_at 4 b0 k" using k by auto
    qed
    have "unpackEta4_loop (8 * g) (drop (4 * g) b0) f = unpackEta4_loop (8 * g) b f"
      by (simp only: b_def)
    also have "\<dots> = unpackEta4_loop (8 * g + 8) (drop 4 b) f'"
      by (simp only: step chk False if_False)
    also have "\<dots> = unpackEta4_loop (8 * (g + 1)) (drop (4 * (g + 1)) b0) f'"
      by (simp only: dr eqs)
    also have "\<dots> = (if \<exists>k<256. 8 * (g + 1) \<le> k \<and> 9 \<le> field_at 4 b0 k then Inl InvalidEtaEncoding
      else Inr (map (coef_eta 4 4 b0) [0..<256]))" by (rule ih)
    also have "\<dots> = (if \<exists>k<256. 8 * g \<le> k \<and> 9 \<le> field_at 4 b0 k then Inl InvalidEtaEncoding
      else Inr (map (coef_eta 4 4 b0) [0..<256]))" by (simp only: ex_eq)
    finally show ?thesis .
  qed
qed


lemma coef_eta_small_list:
  "list_all (\<lambda>z. fieldSub 2 (of_nat z) = fe_of_int (2 - int z)
     \<and> fieldSub 4 (of_nat z) = fe_of_int (4 - int z)) [0..<16]"
  by code_simp

lemma coef_eta_small:
  assumes "z \<le> 15"
  shows "fieldSub 2 (of_nat z) = fe_of_int (2 - int z)"
    and "fieldSub 4 (of_nat z) = fe_of_int (4 - int z)"
  using assms coef_eta_small_list by (simp_all add: list_all_iff)

lemma field_at_3_le: "field_at 3 b k \<le> 7"
  by (simp add: field_at_3)

lemma field_at_4_le: "field_at 4 b k \<le> 15"
  by (simp add: field_at_4)

lemma coef_eta_2: "coef_eta 2 3 b k = fe_of_int (2 - int (field_at 3 b k))"
proof -
  have "field_at 3 b k \<le> 15" using field_at_3_le[of b k] by simp
  then show ?thesis by (simp add: coef_eta_def coef_eta_small(1))
qed

lemma coef_eta_4: "coef_eta 4 4 b k = fe_of_int (4 - int (field_at 4 b k))"
  using field_at_4_le[of b k] by (simp add: coef_eta_def coef_eta_small(2))

text \<open>
  Claim C6. \<open>unpackEta2\<close> returns an invalid-encoding error if and only if some 3-bit
  coefficient field of its 96-byte input has value at least 5, and \<open>unpackEta4\<close> returns an
  invalid-encoding error if and only if some 4-bit nibble of its 128-byte input has value
  at least 9; otherwise each returns the decoded polynomial with coefficients \<open>2 - z\<close>
  (resp. \<open>4 - z\<close>) reduced modulo \<open>q\<close>.
\<close>

theorem unpackEta_rejects_iff_out_of_range:
  "(length b = 96 \<longrightarrow>
      (unpackEta2 b = Inl InvalidEtaEncoding) = (\<exists>k<256. 5 \<le> field_at 3 b k) \<and>
      (\<not> (\<exists>k<256. 5 \<le> field_at 3 b k) \<longrightarrow>
         unpackEta2 b = Inr (map (\<lambda>k. fe_of_int (2 - int (field_at 3 b k))) [0..<256]))) \<and>
   (length b' = 128 \<longrightarrow>
      (unpackEta4 b' = Inl InvalidEtaEncoding) = (\<exists>k<256. 9 \<le> field_at 4 b' k) \<and>
      (\<not> (\<exists>k<256. 9 \<le> field_at 4 b' k) \<longrightarrow>
         unpackEta4 b' = Inr (map (\<lambda>k. fe_of_int (4 - int (field_at 4 b' k))) [0..<256])))"
proof (intro conjI impI)
  assume l: "length b = 96"
  have "unpackEta2_loop (8 * 0) (drop (3 * 0) b) (replicate n 0) =
     (if \<exists>k<256. 8 * 0 \<le> k \<and> 5 \<le> field_at 3 b k then Inl InvalidEtaEncoding
      else Inr (map (coef_eta 2 3 b) [0..<256]))"
    by (rule eta2_loop[OF l]) (simp_all add: n_def)
  then have r: "unpackEta2 b =
     (if \<exists>k<256. 5 \<le> field_at 3 b k then Inl InvalidEtaEncoding
      else Inr (map (\<lambda>k. fe_of_int (2 - int (field_at 3 b k))) [0..<256]))"
    by (simp add: unpackEta2_def coef_eta_2)
  show "(unpackEta2 b = Inl InvalidEtaEncoding) = (\<exists>k<256. 5 \<le> field_at 3 b k)"
    by (simp only: r split: if_splits) simp
  assume "\<not> (\<exists>k<256. 5 \<le> field_at 3 b k)"
  then show "unpackEta2 b = Inr (map (\<lambda>k. fe_of_int (2 - int (field_at 3 b k))) [0..<256])"
    by (simp only: r if_False)
next
  assume l: "length b' = 128"
  have "unpackEta4_loop (8 * 0) (drop (4 * 0) b') (replicate n 0) =
     (if \<exists>k<256. 8 * 0 \<le> k \<and> 9 \<le> field_at 4 b' k then Inl InvalidEtaEncoding
      else Inr (map (coef_eta 4 4 b') [0..<256]))"
    by (rule eta4_loop[OF l]) (simp_all add: n_def)
  then have r: "unpackEta4 b' =
     (if \<exists>k<256. 9 \<le> field_at 4 b' k then Inl InvalidEtaEncoding
      else Inr (map (\<lambda>k. fe_of_int (4 - int (field_at 4 b' k))) [0..<256]))"
    by (simp add: unpackEta4_def coef_eta_4)
  show "(unpackEta4 b' = Inl InvalidEtaEncoding) = (\<exists>k<256. 9 \<le> field_at 4 b' k)"
    by (simp only: r split: if_splits) simp
  assume "\<not> (\<exists>k<256. 9 \<le> field_at 4 b' k)"
  then show "unpackEta4 b' = Inr (map (\<lambda>k. fe_of_int (4 - int (field_at 4 b' k))) [0..<256])"
    by (simp only: r if_False)
qed

theorem unpackEta_rejects_iff_out_of_range_witness:
  "length (replicate 96 (7 :: byte)) = 96 \<and>
   (unpackEta2 (replicate 96 7) = Inl InvalidEtaEncoding)
      = (\<exists>k<256. 5 \<le> field_at 3 (replicate 96 7) k) \<and>
   length (replicate 128 (0 :: byte)) = 128 \<and>
   (unpackEta4 (replicate 128 0) = Inl InvalidEtaEncoding)
      = (\<exists>k<256. 9 \<le> field_at 4 (replicate 128 0) k)"
  using unpackEta_rejects_iff_out_of_range[of "replicate 96 7" "replicate 128 0"]
  by simp


section \<open>The hint codec: \<open>packHint\<close> and \<open>unpackHint\<close>\<close>

lemma countOnes_row_eq:
  "countOnes_row row j c = c + length (filter (\<lambda>t. row ! t \<noteq> 0) [j..<length row])"
proof (induction row j c rule: countOnes_row.induct)
  case (1 row j c)
  show ?case
  proof (cases "j < length row")
    case True
    then have u: "[j..<length row] = j # [j + 1..<length row]" by (simp add: upt_conv_Cons)
    show ?thesis
      using True 1 by (subst countOnes_row.simps) (simp add: u)
  next
    case False
    then show ?thesis by (subst countOnes_row.simps) simp
  qed
qed

lemma hint_offset_Suc:
  assumes "i < length h"
  shows "hint_offset h (Suc i) = hint_offset h i + length (hint_positions (h ! i))"
  using assms by (simp add: hint_offset_def take_Suc_conv_app_nth)

lemma hint_offset_0 [simp]: "hint_offset h 0 = 0"
  by (simp add: hint_offset_def)

lemma hint_offset_mono:
  assumes "i \<le> j" "j \<le> length h"
  shows "hint_offset h i \<le> hint_offset h j"
  using assms
proof (induction j)
  case 0
  then show ?case by simp
next
  case (Suc j)
  show ?case
  proof (cases "i = Suc j")
    case True
    then show ?thesis by simp
  next
    case False
    then have "hint_offset h i \<le> hint_offset h j" using Suc by simp
    moreover have "hint_offset h (Suc j) = hint_offset h j + length (hint_positions (h ! j))"
      using hint_offset_Suc[of j h] Suc.prems by simp
    ultimately show ?thesis by simp
  qed
qed

lemma countOnes_rows_eq:
  assumes "\<forall>row\<in>set v. length row = 256" "i \<le> length v"
  shows "countOnes_rows v i (hint_offset v i) = hint_offset v (length v)"
  using assms
proof (induction "length v - i" arbitrary: i)
  case 0
  then show ?case by (subst countOnes_rows.simps) simp
next
  case (Suc m)
  then have i: "i < length v" by simp
  then have "length (v ! i) = 256" using Suc.prems(1) by simp
  then have "countOnes_row (v ! i) 0 (hint_offset v i) = hint_offset v (i + 1)"
    using i by (simp add: countOnes_row_eq hint_offset_Suc hint_positions_def)
  moreover have "countOnes_rows v (i + 1) (hint_offset v (i + 1)) = hint_offset v (length v)"
    using Suc i by (intro Suc.hyps(1)) simp_all
  ultimately show ?case using i by (subst countOnes_rows.simps) simp
qed

lemma countOnes_eq:
  assumes "\<forall>row\<in>set v. length row = 256"
  shows "countOnes v = hint_offset v (length v)"
  using countOnes_rows_eq[OF assms, of 0] by (simp add: countOnes_def)


lemma packHint_row_spec:
  assumes "j \<le> 256" "idx + length (filter (\<lambda>t. row ! t \<noteq> 0) [j..<256]) \<le> length b"
  shows "\<exists>b'. packHint_row row j b idx
            = Inr (b', idx + length (filter (\<lambda>t. row ! t \<noteq> 0) [j..<256])) \<and>
          length b' = length b \<and>
          (\<forall>p. p < idx \<or> idx + length (filter (\<lambda>t. row ! t \<noteq> 0) [j..<256]) \<le> p \<longrightarrow> b' ! p = b ! p) \<and>
          (\<forall>t<length (filter (\<lambda>t. row ! t \<noteq> 0) [j..<256]).
              b' ! (idx + t) = of_nat (filter (\<lambda>t. row ! t \<noteq> 0) [j..<256] ! t))"
  using assms
proof (induction "256 - j" arbitrary: j b idx)
  case 0
  then have "j = 256" by simp
  then show ?case by (subst packHint_row.simps) (simp add: n_def)
next
  case (Suc m)
  then have j: "j < 256" by simp
  let ?F = "\<lambda>j. filter (\<lambda>t. row ! t \<noteq> 0) [j..<256]"
  have u: "[j..<256] = j # [Suc j..<256]" using j by (simp add: upt_conv_Cons)
  show ?case
  proof (cases "row ! j \<noteq> 0")
    case True
    then have F: "?F j = j # ?F (Suc j)" by (simp add: u)
    have idx: "idx < length b" using Suc.prems(2) F by simp
    let ?b1 = "b[idx := of_nat j]"
    have "\<exists>b'. packHint_row row (Suc j) ?b1 (Suc idx) = Inr (b', Suc idx + length (?F (Suc j))) \<and>
          length b' = length ?b1 \<and>
          (\<forall>p. p < Suc idx \<or> Suc idx + length (?F (Suc j)) \<le> p \<longrightarrow> b' ! p = ?b1 ! p) \<and>
          (\<forall>t<length (?F (Suc j)). b' ! (Suc idx + t) = of_nat (?F (Suc j) ! t))"
      using Suc.hyps(2) j Suc.prems(2) F by (intro Suc.hyps(1)) simp_all
    then obtain b' where b': "packHint_row row (Suc j) ?b1 (Suc idx) = Inr (b', Suc idx + length (?F (Suc j)))"
       "length b' = length b"
       "\<forall>p. p < Suc idx \<or> Suc idx + length (?F (Suc j)) \<le> p \<longrightarrow> b' ! p = ?b1 ! p"
       "\<forall>t<length (?F (Suc j)). b' ! (Suc idx + t) = of_nat (?F (Suc j) ! t)"
      by auto
    have step: "packHint_row row j b idx = packHint_row row (Suc j) ?b1 (Suc idx)"
      using j True idx by (subst packHint_row.simps) (simp add: n_def)
    have c1: "packHint_row row j b idx = Inr (b', idx + length (?F j))"
      by (simp add: step b'(1) F)
    have c3: "\<forall>p. p < idx \<or> idx + length (?F j) \<le> p \<longrightarrow> b' ! p = b ! p"
      using b'(3) by (auto simp: F)
    have c4: "\<forall>t<length (?F j). b' ! (idx + t) = of_nat (?F j ! t)"
    proof (intro allI impI)
      fix t assume t: "t < length (?F j)"
      show "b' ! (idx + t) = of_nat (?F j ! t)"
      proof (cases t)
        case 0
        have "b' ! idx = ?b1 ! idx" using b'(3) by simp
        then show ?thesis using 0 idx by (simp add: F)
      next
        case (Suc t')
        then have "t' < length (?F (Suc j))" using t F by simp
        then have "b' ! (Suc idx + t') = of_nat (?F (Suc j) ! t')" using b'(4) by blast
        then show ?thesis using Suc by (simp add: F)
      qed
    qed
    show ?thesis using c1 b'(2) c3 c4 by blast
  next
    case False
    then have F: "?F j = ?F (Suc j)" by (simp add: u)
    have step: "packHint_row row j b idx = packHint_row row (Suc j) b idx"
      using j False by (subst packHint_row.simps) (simp add: n_def)
    have "\<exists>b'. packHint_row row (Suc j) b idx = Inr (b', idx + length (?F (Suc j))) \<and>
          length b' = length b \<and>
          (\<forall>p. p < idx \<or> idx + length (?F (Suc j)) \<le> p \<longrightarrow> b' ! p = b ! p) \<and>
          (\<forall>t<length (?F (Suc j)). b' ! (idx + t) = of_nat (?F (Suc j) ! t))"
      using Suc.hyps(2) j Suc.prems(2) F by (intro Suc.hyps(1)) simp_all
    then show ?thesis by (simp only: step F)
  qed
qed


lemma packHint_rows_spec:
  assumes tot: "hint_offset h (length h) \<le> omega" and i: "i \<le> length h"
    and lb: "length b = omega + length h" and idx: "idx = hint_offset h i"
    and A: "\<forall>r<i. b ! (omega + r) = of_nat (hint_offset h (Suc r))"
    and B: "\<forall>r<i. \<forall>t<length (hint_positions (h ! r)).
               b ! (hint_offset h r + t) = of_nat (hint_positions (h ! r) ! t)"
    and C: "\<forall>p. hint_offset h i \<le> p \<and> p < omega \<longrightarrow> b ! p = 0"
  shows "\<exists>b'. packHint_rows h omega (length h) i b idx = Inr b' \<and> hint_packed h omega b'"
  using i lb idx A B C
proof (induction "length h - i" arbitrary: i b idx)
  case 0
  then have e: "i = length h" by simp
  have "packHint_rows h omega (length h) i b idx = Inr b"
    by (subst packHint_rows.simps) (simp add: e)
  moreover have "hint_packed h omega b"
    using 0 e by (simp add: hint_packed_def)
  ultimately show ?case by blast
next
  case (Suc m)
  then have i: "i < length h" by simp
  let ?P = "hint_positions (h ! i)"
  have off: "hint_offset h (Suc i) = idx + length ?P"
    using i Suc.prems(3) by (simp add: hint_offset_Suc)
  have le1: "hint_offset h (Suc i) \<le> hint_offset h (length h)"
    using i by (intro hint_offset_mono) simp_all
  then have le: "idx + length ?P \<le> omega" using off tot by simp
  have F: "filter (\<lambda>t. (h ! i) ! t \<noteq> 0) [0..<256] = ?P" by (simp add: hint_positions_def)
  have "\<exists>b'. packHint_row (h ! i) 0 b idx
            = Inr (b', idx + length (filter (\<lambda>t. (h ! i) ! t \<noteq> 0) [0..<256])) \<and>
          length b' = length b \<and>
          (\<forall>p. p < idx \<or> idx + length (filter (\<lambda>t. (h ! i) ! t \<noteq> 0) [0..<256]) \<le> p \<longrightarrow> b' ! p = b ! p) \<and>
          (\<forall>t<length (filter (\<lambda>t. (h ! i) ! t \<noteq> 0) [0..<256]).
              b' ! (idx + t) = of_nat (filter (\<lambda>t. (h ! i) ! t \<noteq> 0) [0..<256] ! t))"
    using le Suc.prems(2) by (intro packHint_row_spec) (simp_all add: F)
  then obtain b1 where b1: "packHint_row (h ! i) 0 b idx = Inr (b1, idx + length ?P)"
      "length b1 = length b"
      "\<forall>p. p < idx \<or> idx + length ?P \<le> p \<longrightarrow> b1 ! p = b ! p"
      "\<forall>t<length ?P. b1 ! (idx + t) = of_nat (?P ! t)"
    unfolding F by blast
  define b2 where "b2 = b1[omega + i := of_nat (idx + length ?P)]"
  have step: "packHint_rows h omega (length h) i b idx
      = packHint_rows h omega (length h) (i + 1) b2 (idx + length ?P)"
    using i by (subst packHint_rows.simps) (simp add: b1(1) b2_def)
  have lb2: "length b2 = omega + length h" using b1(2) Suc.prems(2) by (simp add: b2_def)
  have oi: "omega + i < length b1" using b1(2) Suc.prems(2) i by simp
  have A': "\<forall>r<i + 1. b2 ! (omega + r) = of_nat (hint_offset h (Suc r))"
  proof (intro allI impI)
    fix r assume r: "r < i + 1"
    show "b2 ! (omega + r) = of_nat (hint_offset h (Suc r))"
    proof (cases "r = i")
      case True
      then show ?thesis using oi off by (simp add: b2_def)
    next
      case False
      then have ri: "r < i" using r by simp
      have "b2 ! (omega + r) = b1 ! (omega + r)" using False by (simp add: b2_def)
      also have "\<dots> = b ! (omega + r)" using b1(3) le by simp
      also have "\<dots> = of_nat (hint_offset h (Suc r))" using Suc.prems(4) ri by blast
      finally show ?thesis .
    qed
  qed
  have B': "\<forall>r<i + 1. \<forall>t<length (hint_positions (h ! r)).
               b2 ! (hint_offset h r + t) = of_nat (hint_positions (h ! r) ! t)"
  proof (intro allI impI)
    fix r t assume r: "r < i + 1" and t: "t < length (hint_positions (h ! r))"
    show "b2 ! (hint_offset h r + t) = of_nat (hint_positions (h ! r) ! t)"
    proof (cases "r = i")
      case True
      have "idx + t < omega + i" using t True le by simp
      then have "b2 ! (idx + t) = b1 ! (idx + t)" by (simp add: b2_def)
      then show ?thesis using b1(4) t True Suc.prems(3) by simp
    next
      case False
      then have ri: "r < i" using r by simp
      have "hint_offset h (Suc r) \<le> hint_offset h i"
        using ri i by (intro hint_offset_mono) simp_all
      then have lt: "hint_offset h r + t < idx"
        using t ri i Suc.prems(3) by (simp add: hint_offset_Suc)
      then have "hint_offset h r + t < omega + i" using le by simp
      then have "b2 ! (hint_offset h r + t) = b1 ! (hint_offset h r + t)" by (simp add: b2_def)
      also have "\<dots> = b ! (hint_offset h r + t)" using b1(3) lt by simp
      also have "\<dots> = of_nat (hint_positions (h ! r) ! t)" using Suc.prems(5) ri t by blast
      finally show ?thesis .
    qed
  qed
  have C': "\<forall>p. hint_offset h (i + 1) \<le> p \<and> p < omega \<longrightarrow> b2 ! p = 0"
  proof (intro allI impI)
    fix p assume p: "hint_offset h (i + 1) \<le> p \<and> p < omega"
    then have p1: "idx + length ?P \<le> p" using off by simp
    have "b2 ! p = b1 ! p" using p by (simp add: b2_def)
    also have "\<dots> = b ! p" using b1(3) p1 by simp
    also have "\<dots> = 0" using Suc.prems(6) p p1 Suc.prems(3) by simp
    finally show "b2 ! p = 0" .
  qed
  have "\<exists>b'. packHint_rows h omega (length h) (i + 1) b2 (idx + length ?P) = Inr b' \<and> hint_packed h omega b'"
    using Suc.hyps(2) i lb2 off A' B' C' by (intro Suc.hyps(1)) simp_all
  then show ?case by (simp only: step)
qed

lemma packHint_spec:
  assumes "hint_offset h (length h) \<le> omega"
  shows "\<exists>b. packHint h omega = Inr b \<and> hint_packed h omega b"
  unfolding packHint_def Let_def
  by (rule packHint_rows_spec[OF assms]) simp_all


lemma hint_positions_sorted: "sorted_wrt (<) (hint_positions row)"
  unfolding hint_positions_def by (rule sorted_wrt_filter) (simp add: sorted_wrt_upt)

lemma hint_positions_bound: "x \<in> set (hint_positions row) \<Longrightarrow> x < 256"
  by (simp add: hint_positions_def)

lemma hint_positions_nth_bound: "t < length (hint_positions row) \<Longrightarrow> hint_positions row ! t < 256"
  using hint_positions_bound[of "hint_positions row ! t" row] by simp

lemma hint_positions_length: "length (hint_positions row) \<le> 256"
proof -
  have "length (hint_positions row) \<le> length [0..<256::nat]"
    unfolding hint_positions_def by (rule length_filter_le)
  then show ?thesis by simp
qed

lemma unat_byte_of_nat: "x < 256 \<Longrightarrow> unat (of_nat x :: byte) = x"
  by (simp add: unat_of_nat)

lemma byte_of_nat_less: "x < y \<Longrightarrow> y < 256 \<Longrightarrow> (of_nat x :: byte) < of_nat y"
  by (simp add: word_less_nat_alt unat_byte_of_nat)

lemma fold_set_nth:
  assumes "p < length r" "\<forall>x\<in>set xs. x < length r"
  shows "fold (\<lambda>x row. row[x := (1::fieldElement)]) xs r ! p = (if p \<in> set xs then 1 else r ! p)"
  using assms
proof (induction xs arbitrary: r)
  case Nil
  then show ?case by simp
next
  case (Cons x xs)
  have "fold (\<lambda>x row. row[x := 1]) (x # xs) r ! p = fold (\<lambda>x row. row[x := 1]) xs (r[x := 1]) ! p"
    by simp
  also have "\<dots> = (if p \<in> set xs then 1 else r[x := 1] ! p)"
    using Cons.prems by (intro Cons.IH) simp_all
  also have "\<dots> = (if p \<in> set (x # xs) then 1 else r ! p)"
    using Cons.prems by (auto simp: nth_list_update)
  finally show ?case .
qed

lemma fold_set_length: "length (fold (\<lambda>x row. row[x := (1::fieldElement)]) xs r) = length r"
  by (induction xs arbitrary: r) simp_all

lemma fold_positions_row:
  assumes "length row = 256" "\<forall>x\<in>set row. x = 0 \<or> x = 1"
  shows "fold (\<lambda>x r. r[x := 1]) (hint_positions row) (replicate 256 0) = row"
proof -
  let ?L = "fold (\<lambda>x r. r[x := 1]) (hint_positions row) (replicate 256 (0::fieldElement))"
  have len: "length ?L = 256" by (simp add: fold_set_length)
  have "?L ! p = row ! p" if p: "p < 256" for p
  proof -
    have "?L ! p = (if p \<in> set (hint_positions row) then 1 else replicate 256 0 ! p)"
      using p by (intro fold_set_nth) (auto dest: hint_positions_bound)
    also have "\<dots> = (if row ! p \<noteq> 0 then 1 else 0)"
      using p by (simp add: hint_positions_def)
    also have "\<dots> = row ! p"
      using assms p by (metis nth_mem)
    finally show ?thesis .
  qed
  then show ?thesis using len assms(1) by (intro nth_equalityI) simp_all
qed

lemma unpackHint_row_spec:
  assumes "limit \<le> length b" "prev \<le> idx" "idx \<le> limit" "limit = prev + length P"
    and "\<forall>t<length P. b ! (prev + t) = of_nat (P ! t)"
    and "sorted_wrt (<) P" "\<forall>x\<in>set P. x < 256" "i < length hints"
  shows "unpackHint_row b i prev limit idx hints
     = Inr (True, limit, hints[i := fold (\<lambda>x row. row[x := 1]) (drop (idx - prev) P) (hints ! i)])"
  using assms
proof (induction "limit - idx" arbitrary: idx hints)
  case 0
  then have e: "idx = limit" by simp
  then have "drop (idx - prev) P = []" using 0 by simp
  then show ?case by (subst unpackHint_row.simps) (simp add: e)
next
  case (Suc m)
  then have lt: "idx < limit" by simp
  define t where "t = idx - prev"
  have t: "t < length P" "idx = prev + t" using lt Suc.prems by (simp_all add: t_def)
  define pos where "pos = b ! idx"
  have pos: "pos = of_nat (P ! t)" using Suc.prems(5) t by (simp add: pos_def)
  have Pt: "P ! t < 256" using Suc.prems(7) t(1) by simp
  have upos: "unat pos = P ! t" using Pt by (simp add: pos unat_byte_of_nat)
  have chk: "\<not> (prev < idx \<and> pos \<le> b ! (idx - 1))"
  proof
    assume a: "prev < idx \<and> pos \<le> b ! (idx - 1)"
    then have t0: "0 < t" by (simp add: t_def)
    then have "b ! (idx - 1) = of_nat (P ! (t - 1))"
      using Suc.prems(5) t by (metis Suc_diff_1 add_Suc_right diff_Suc_1 less_imp_diff_less)
    moreover have "P ! (t - 1) < P ! t"
      using Suc.prems(6) t(1) t0 by (simp add: sorted_wrt_nth_less)
    ultimately have "b ! (idx - 1) < pos"
      using Pt by (simp add: pos byte_of_nat_less)
    then show False using a leD by blast
  qed
  define hints' where "hints' = hints[i := (hints ! i)[unat pos := 1]]"
  have step: "unpackHint_row b i prev limit idx hints = unpackHint_row b i prev limit (idx + 1) hints'"
  proof -
    have c1: "(idx < limit) = True" using lt by simp
    have c2: "(length b \<le> idx) = False" using lt Suc.prems(1) by simp
    have c3: "(prev < idx \<and> b ! idx \<le> b ! (idx - 1)) = False" using chk by (simp only: pos_def)
    show ?thesis
      by (subst unpackHint_row.simps) (simp only: c1 c2 c3 Let_def if_True if_False hints'_def pos_def)
  qed
  have ih: "unpackHint_row b i prev limit (idx + 1) hints'
     = Inr (True, limit, hints'[i := fold (\<lambda>x row. row[x := 1]) (drop (idx + 1 - prev) P) (hints' ! i)])"
    using Suc.hyps(2) Suc.prems lt by (intro Suc.hyps(1)) (simp_all add: hints'_def)
  have d: "drop (idx - prev) P = P ! t # drop (idx + 1 - prev) P"
    using t(1) Suc.prems(2) by (simp add: t_def[symmetric] Cons_nth_drop_Suc Suc_diff_le)
  have "hints'[i := fold (\<lambda>x row. row[x := 1]) (drop (idx + 1 - prev) P) (hints' ! i)]
      = hints[i := fold (\<lambda>x row. row[x := 1]) (drop (idx - prev) P) (hints ! i)]"
    using Suc.prems(8) by (simp add: d hints'_def upos)
  then show ?case by (simp only: step ih)
qed

lemma unpackHint_rest_spec:
  assumes "omega \<le> length b" "\<forall>p. idx \<le> p \<and> p < omega \<longrightarrow> b ! p = 0"
  shows "unpackHint_rest b omega idx = Inr True"
  using assms
proof (induction "omega - idx" arbitrary: idx)
  case 0
  then show ?case by (subst unpackHint_rest.simps) simp
next
  case (Suc m)
  then have lt: "idx < omega" by simp
  have "unpackHint_rest b omega (idx + 1) = Inr True"
    using Suc by (intro Suc.hyps(1)) simp_all
  then show ?case using lt Suc.prems by (subst unpackHint_rest.simps) simp
qed


lemma hint_count_packed:
  assumes pk: "hint_packed h omega b" and om: "omega \<le> 255"
    and tot: "hint_offset h (length h) \<le> omega" and i: "i \<le> length h"
  shows "hint_count omega b i = hint_offset h i"
proof (cases i)
  case 0
  then show ?thesis by (simp add: hint_count_def)
next
  case (Suc r)
  then have r: "r < length h" using i by simp
  have "hint_offset h (Suc r) \<le> hint_offset h (length h)"
    using r by (intro hint_offset_mono) simp_all
  then have le: "hint_offset h (Suc r) < 256" using tot om by simp
  have "b ! (omega + r) = of_nat (hint_offset h (Suc r))"
    using pk r by (simp add: hint_packed_def)
  then have "unat (b ! (omega + r)) = hint_offset h (Suc r)"
    using le by (simp add: unat_byte_of_nat)
  then show ?thesis using Suc by (simp add: hint_count_def)
qed

lemma unpackHint_rows_spec:
  assumes pk: "hint_packed h omega b" and om: "omega \<le> 255"
    and tot: "hint_offset h (length h) \<le> omega"
    and wf: "\<forall>row\<in>set h. length row = 256 \<and> (\<forall>x\<in>set row. x = 0 \<or> x = 1)"
    and i: "i \<le> length h" and lh: "length hints = length h"
    and dn: "\<forall>r<i. hints ! r = h ! r"
    and todo: "\<forall>r. i \<le> r \<and> r < length h \<longrightarrow> hints ! r = replicate 256 0"
  shows "unpackHint_rows b omega (length h) i (hint_offset h i) hints
       = Inr (True, hint_offset h (length h), h)"
  using i lh dn todo
proof (induction "length h - i" arbitrary: i hints)
  case 0
  then have e: "i = length h" by simp
  have "hints = h" using 0 e by (intro nth_equalityI) simp_all
  then show ?case by (subst unpackHint_rows.simps) (simp add: e)
next
  case (Suc m)
  then have i: "i < length h" by simp
  let ?P = "hint_positions (h ! i)"
  define idx where "idx = hint_offset h i"
  define limit where "limit = hint_offset h (Suc i)"
  have lb: "length b = omega + length h" using pk by (simp add: hint_packed_def)
  have lim: "unat (b ! (omega + i)) = limit"
    using hint_count_packed[OF pk om tot, of "Suc i"] i by (simp add: hint_count_def limit_def)
  have lp: "limit = idx + length ?P" using i by (simp add: limit_def idx_def hint_offset_Suc)
  have "limit \<le> hint_offset h (length h)"
    unfolding limit_def using i by (intro hint_offset_mono) simp_all
  then have lo: "limit \<le> omega" using tot by simp
  have vals: "\<forall>t<length ?P. b ! (idx + t) = of_nat (?P ! t)"
    using pk i by (simp add: hint_packed_def idx_def)
  have row: "unpackHint_row b i idx limit idx hints
     = Inr (True, limit, hints[i := fold (\<lambda>x row. row[x := 1]) (drop (idx - idx) ?P) (hints ! i)])"
    using lo lb lp vals i Suc.prems(2)
    by (intro unpackHint_row_spec) (auto simp: hint_positions_sorted dest: hint_positions_bound)
  have hi: "hints ! i = replicate 256 0" using Suc.prems(4) i by simp
  have wfi: "length (h ! i) = 256" "\<forall>x\<in>set (h ! i). x = 0 \<or> x = 1"
    using wf i nth_mem[of i h] by blast+
  have f: "fold (\<lambda>x row. row[x := 1]) (drop (idx - idx) ?P) (hints ! i) = h ! i"
    using fold_positions_row[OF wfi] by (simp add: hi)
  define hints' where "hints' = hints[i := h ! i]"
  have row': "unpackHint_row b i idx limit idx hints = Inr (True, limit, hints')"
    by (simp only: row f hints'_def)
  have c1: "(i < length h) = True" using i by simp
  have c2: "(length b \<le> omega + i) = False" using lb i by simp
  have c3: "(limit < idx \<or> omega < limit) = False" using lp lo by simp
  have step: "unpackHint_rows b omega (length h) i idx hints
      = unpackHint_rows b omega (length h) (i + 1) limit hints'"
    by (subst unpackHint_rows.simps)
       (simp only: c1 c2 c3 lim Let_def if_True if_False row' sum.case prod.case)
  have ih: "unpackHint_rows b omega (length h) (i + 1) (hint_offset h (i + 1)) hints'
       = Inr (True, hint_offset h (length h), h)"
  proof (rule Suc.hyps(1))
    show "m = length h - (i + 1)" using Suc.hyps(2) by simp
    show "i + 1 \<le> length h" using i by simp
    show "length hints' = length h" using Suc.prems(2) by (simp add: hints'_def)
    show "\<forall>r<i + 1. hints' ! r = h ! r"
      using Suc.prems(2,3) i by (auto simp: hints'_def nth_list_update less_Suc_eq)
    show "\<forall>r. i + 1 \<le> r \<and> r < length h \<longrightarrow> hints' ! r = replicate 256 0"
      using Suc.prems(4) by (auto simp: hints'_def)
  qed
  show ?case
    using step ih by (simp add: idx_def limit_def)
qed

lemma unpackHint_packed:
  assumes pk: "hint_packed h omega b" and om: "omega \<le> 255"
    and tot: "hint_offset h (length h) \<le> omega"
    and wf: "\<forall>row\<in>set h. length row = 256 \<and> (\<forall>x\<in>set row. x = 0 \<or> x = 1)"
  shows "unpackHint b (replicate (length h) (replicate 256 0)) omega = Inr (True, h)"
proof -
  have rows: "unpackHint_rows b omega (length h) 0 (hint_offset h 0) (replicate (length h) (replicate 256 0))
       = Inr (True, hint_offset h (length h), h)"
    by (rule unpackHint_rows_spec[OF pk om tot wf]) simp_all
  have lb: "length b = omega + length h" using pk by (simp add: hint_packed_def)
  have "unpackHint_rest b omega (hint_offset h (length h)) = Inr True"
    using pk lb by (intro unpackHint_rest_spec) (simp_all add: hint_packed_def)
  then show ?thesis using rows by (simp add: unpackHint_def)
qed


lemma hint_encoding_ok_packed:
  assumes pk: "hint_packed h omega b" and om: "omega \<le> 255"
    and tot: "hint_offset h (length h) \<le> omega"
  shows "hint_encoding_ok omega (length h) b"
proof -
  have c: "hint_count omega b i = hint_offset h i" if "i \<le> length h" for i
    by (rule hint_count_packed[OF pk om tot that])
  have p1: "hint_count omega b i \<le> hint_count omega b (i + 1) \<and> hint_count omega b (i + 1) \<le> omega"
    if i: "i < length h" for i
  proof -
    have "hint_offset h i \<le> hint_offset h (i + 1)" using i by (intro hint_offset_mono) simp_all
    moreover have "hint_offset h (i + 1) \<le> hint_offset h (length h)"
      using i by (intro hint_offset_mono) simp_all
    ultimately show ?thesis using c[of i] c[of "i + 1"] i tot by simp
  qed
  have p2: "b ! (p - 1) < b ! p"
    if i: "i < length h" and p: "hint_count omega b i < p" "p < hint_count omega b (i + 1)" for i p
  proof -
    let ?P = "hint_positions (h ! i)"
    define t where "t = p - hint_offset h i"
    have ci: "hint_count omega b i = hint_offset h i" using c[of i] i by simp
    have cs: "hint_count omega b (i + 1) = hint_offset h i + length ?P"
      using c[of "i + 1"] i by (simp add: hint_offset_Suc)
    have t: "0 < t" "t < length ?P" using p ci cs by (simp_all add: t_def)
    have e1: "p = hint_offset h i + t" using p ci by (simp add: t_def)
    have e0: "p - 1 = hint_offset h i + (t - 1)" using t e1 by simp
    have v: "\<forall>t<length ?P. b ! (hint_offset h i + t) = of_nat (?P ! t)"
      using pk i by (simp add: hint_packed_def)
    have "b ! (p - 1) = of_nat (?P ! (t - 1))" using v t by (simp only: e0)
    moreover have "b ! p = of_nat (?P ! t)" using v t by (simp only: e1)
    moreover have "?P ! (t - 1) < ?P ! t"
      using t by (intro sorted_wrt_nth_less[OF hint_positions_sorted]) simp_all
    moreover have "?P ! t < 256" using t by (intro hint_positions_nth_bound)
    ultimately show ?thesis by (simp add: byte_of_nat_less)
  qed
  have p3: "b ! p = 0" if "hint_count omega b (length h) \<le> p" "p < omega" for p
    using that pk c[of "length h"] by (simp add: hint_packed_def)
  show ?thesis
    unfolding hint_encoding_ok_def list_all_iff
    using p1 p2 p3 by auto
qed

lemma hint_listing_packed:
  assumes pk: "hint_packed h omega b" and om: "omega \<le> 255"
    and tot: "hint_offset h (length h) \<le> omega" and i: "i < length h"
  shows "map ((!) b) [hint_count omega b i..<hint_count omega b (i + 1)]
       = map of_nat (hint_positions (h ! i))"
proof -
  let ?P = "hint_positions (h ! i)"
  have ci: "hint_count omega b i = hint_offset h i"
    using hint_count_packed[OF pk om tot, of i] i by simp
  have cs: "hint_count omega b (i + 1) = hint_offset h i + length ?P"
    using hint_count_packed[OF pk om tot, of "i + 1"] i by (simp add: hint_offset_Suc)
  have v: "\<forall>t<length ?P. b ! (hint_offset h i + t) = of_nat (?P ! t)"
    using pk i by (simp add: hint_packed_def)
  show ?thesis
    unfolding ci cs by (rule nth_equalityI) (use v in simp_all)
qed



text \<open>
  Claim C7. For every \<open>k\<close>-row hint vector \<open>h\<close> whose coefficients are all 0 or 1 and whose
  total number of ones is at most \<open>omega\<close> (a byte, as in every parameter set):
  \<open>packHint h omega\<close> returns a buffer \<open>b\<close> of \<open>omega + k\<close> bytes, and \<open>unpackHint\<close> on
  \<open>b\<close> and a zero hint vector returns true and reconstructs exactly \<open>h\<close>; the buffer lists
  each row's positions in strictly increasing order, its last \<open>k\<close> bytes are the cumulative
  counts, each at most \<open>omega\<close>, and every unused slot below \<open>omega\<close> is zero.
\<close>

theorem packHint_unpackHint_roundtrip:
  assumes "\<forall>row\<in>set h. length row = 256 \<and> (\<forall>x\<in>set row. x = 0 \<or> x = 1)"
    and "countOnes h \<le> omega" and "omega \<le> 255"
  shows "\<exists>b. packHint h omega = Inr b \<and> length b = omega + length h \<and>
     unpackHint b (replicate (length h) (replicate 256 0)) omega = Inr (True, h) \<and>
     hint_encoding_ok omega (length h) b \<and>
     (\<forall>i<length h.
        hint_count omega b (i + 1) = countOnes (take (i + 1) h) \<and>
        sorted_wrt (<) (hint_positions (h ! i)) \<and>
        map ((!) b) [hint_count omega b i..<hint_count omega b (i + 1)]
          = map of_nat (hint_positions (h ! i)))"
proof -
  have len: "\<forall>row\<in>set h. length row = 256" using assms(1) by blast
  have tot: "hint_offset h (length h) \<le> omega"
    using assms(2) by (simp add: countOnes_eq[OF len])
  obtain b where b: "packHint h omega = Inr b" and pk: "hint_packed h omega b"
    using packHint_spec[OF tot] by blast
  have lb: "length b = omega + length h" using pk by (simp add: hint_packed_def)
  have rt: "unpackHint b (replicate (length h) (replicate 256 0)) omega = Inr (True, h)"
    by (rule unpackHint_packed[OF pk assms(3) tot assms(1)])
  have ok: "hint_encoding_ok omega (length h) b"
    by (rule hint_encoding_ok_packed[OF pk assms(3) tot])
  have rows: "hint_count omega b (i + 1) = countOnes (take (i + 1) h) \<and>
        sorted_wrt (<) (hint_positions (h ! i)) \<and>
        map ((!) b) [hint_count omega b i..<hint_count omega b (i + 1)]
          = map of_nat (hint_positions (h ! i))" if i: "i < length h" for i
  proof -
    have "\<forall>row\<in>set (take (i + 1) h). length row = 256"
      using len by (meson in_set_takeD)
    then have "countOnes (take (i + 1) h) = hint_offset (take (i + 1) h) (length (take (i + 1) h))"
      by (rule countOnes_eq)
    also have "\<dots> = hint_offset h (i + 1)"
      using i by (simp add: hint_offset_def min_absorb2)
    finally have "countOnes (take (i + 1) h) = hint_offset h (i + 1)" .
    moreover have "hint_count omega b (i + 1) = hint_offset h (i + 1)"
      using i by (intro hint_count_packed[OF pk assms(3) tot]) simp
    ultimately show ?thesis
      using hint_listing_packed[OF pk assms(3) tot i] hint_positions_sorted by simp
  qed
  show ?thesis using b lb rt ok rows by blast
qed

lemma hint_witness_wf:
  "\<forall>row\<in>set [(replicate 256 (0::fieldElement))[5 := 1, 17 := 1], replicate 256 0].
      length row = 256 \<and> (\<forall>x\<in>set row. x = 0 \<or> x = 1)"
  by (auto dest!: set_update_subset_insert[THEN subsetD])

lemma hint_witness_count:
  "countOnes [(replicate 256 (0::fieldElement))[5 := 1, 17 := 1], replicate 256 0] = 2"
  by code_simp

theorem packHint_unpackHint_roundtrip_witness:
  "\<exists>b. packHint [(replicate 256 0)[5 := 1, 17 := 1], replicate 256 0] 80 = Inr b \<and>
       length b = 82 \<and>
       unpackHint b (replicate 2 (replicate 256 0)) 80
         = Inr (True, [(replicate 256 0)[5 := 1, 17 := 1], replicate 256 0]) \<and>
       hint_encoding_ok 80 2 b"
proof -
  let ?h = "[(replicate 256 (0::fieldElement))[5 := 1, 17 := 1], replicate 256 0]"
  have c: "countOnes ?h \<le> 80" by (simp only: hint_witness_count)
  have l: "length ?h = 2" by simp
  have "\<exists>b. packHint ?h 80 = Inr b \<and> length b = 80 + 2 \<and>
     unpackHint b (replicate 2 (replicate 256 0)) 80 = Inr (True, ?h) \<and>
     hint_encoding_ok 80 2 b \<and>
     (\<forall>i<2.
        hint_count 80 b (i + 1) = countOnes (take (i + 1) ?h) \<and>
        sorted_wrt (<) (hint_positions (?h ! i)) \<and>
        map ((!) b) [hint_count 80 b i..<hint_count 80 b (i + 1)]
          = map of_nat (hint_positions (?h ! i)))"
    using packHint_unpackHint_roundtrip[OF hint_witness_wf c] by (simp only: l)
  then show ?thesis by auto
qed


section \<open>The number-theoretic transform\<close>

lemma ntt_inner_length: "length (ntt_inner zeta start len j f) = length f"
proof (induction zeta start len j f rule: ntt_inner.induct)
  case (1 zeta start len j f)
  show ?case using 1 by (subst ntt_inner.simps) (simp add: Let_def)
qed

lemma ntt_inner_nth:
  assumes "start + 2 * len \<le> length f" "p < length f"
  shows "ntt_inner zeta start len j f ! p =
     (if start + j \<le> p \<and> p < start + len
        then fieldAdd (f ! p) (fieldMul zeta (f ! (p + len)))
      else if start + len + j \<le> p \<and> p < start + 2 * len
        then fieldSub (f ! (p - len)) (fieldMul zeta (f ! p))
      else f ! p)"
  using assms
proof (induction "len - j" arbitrary: j f)
  case 0
  then have False: "\<not> j < len" by simp
  have e: "ntt_inner zeta start len j f = f"
    using False by (subst ntt_inner.simps) simp
  show ?case using False by (auto simp: e)
next
  case (Suc m)
  then have True: "j < len" by simp
  note 1 = Suc
  show ?case
  proof -
    define t where "t = fieldMul zeta (f ! (start + len + j))"
    define lo where "lo = f ! (start + j)"
    define f' where "f' = f[start + len + j := fieldSub lo t, start + j := fieldAdd lo t]"
    have lf': "length f' = length f" by (simp add: f'_def)
    have step: "ntt_inner zeta start len j f = ntt_inner zeta start len (Suc j) f'"
      using True by (subst ntt_inner.simps) (simp add: Let_def f'_def t_def lo_def)
    have ih: "ntt_inner zeta start len (Suc j) f' ! p =
     (if start + Suc j \<le> p \<and> p < start + len
        then fieldAdd (f' ! p) (fieldMul zeta (f' ! (p + len)))
      else if start + len + Suc j \<le> p \<and> p < start + 2 * len
        then fieldSub (f' ! (p - len)) (fieldMul zeta (f' ! p))
      else f' ! p)"
      using True 1(2,3,4) lf' by (intro 1(1)) simp_all
    have n1: "f' ! x = f ! x" if "x \<noteq> start + j" "x \<noteq> start + len + j" for x
      using that by (simp add: f'_def)
    have n2: "f' ! (start + j) = fieldAdd lo t"
      using 1(3) True by (simp add: f'_def)
    have n3: "f' ! (start + len + j) = fieldSub lo t"
      using 1(3) True by (simp add: f'_def)
    consider (a) "p = start + j" | (b) "p = start + len + j"
      | (c) "start + j < p" "p < start + len" | (d) "start + len + j < p" "p < start + 2 * len"
      | (e) "p < start + j" | (f) "start + len \<le> p" "p < start + len + j" | (g) "start + 2 * len \<le> p"
      by linarith
    then show ?thesis
    proof cases
      case a
      then show ?thesis unfolding step ih using True n2 by (simp add: t_def lo_def add_ac)
    next
      case b
      then show ?thesis unfolding step ih using True n3 by (simp add: t_def lo_def add_ac)
    next
      case c
      then show ?thesis unfolding step ih using True n1[of p] n1[of "p + len"] by simp
    next
      case d
      then show ?thesis unfolding step ih using True n1[of p] n1[of "p - len"] by simp
    next
      case e
      then show ?thesis unfolding step ih using True n1[of p] by simp
    next
      case f
      then show ?thesis unfolding step ih using True n1[of p] by simp
    next
      case g
      then show ?thesis unfolding step ih using True n1[of p] by simp
    qed
  qed
qed

lemma blk_div_mod:
  fixes m bk p :: nat
  assumes "0 < m" "m * bk \<le> p" "p < m * bk + m"
  shows "p div m = bk" "p mod m = p - m * bk"
proof -
  show d: "p div m = bk" by (rule div_nat_eqI) (use assms in simp_all)
  have "m * (p div m) + p mod m = p" by (rule mult_div_mod_eq)
  then show "p mod m = p - m * bk" unfolding d by simp
qed

lemma ntt_blocks_layer:
  assumes len: "0 < len" and dv: "2 * len * nb = 256" and lf: "length f = 256"
    and bk: "bk \<le> nb" and lg: "length g = 256"
    and inv: "\<forall>p<256. g ! p = (if p < 2 * len * bk then ntt_layer_nth len k0 f p else f ! p)"
  shows "ntt_blocks len (2 * len * bk) (k0 + bk) g = (k0 + nb, ntt_layer len k0 f)"
  using bk lg inv
proof (induction "nb - bk" arbitrary: bk g)
  case 0
  then have e: "bk = nb" by simp
  have "g = ntt_layer len k0 f"
    using 0 e dv by (intro nth_equalityI) (simp_all add: ntt_layer_def)
  then show ?case
    using dv by (subst ntt_blocks.simps) (simp add: e n_def)
next
  case (Suc m)
  then have bk: "bk < nb" by simp
  define start where "start = 2 * len * bk"
  have "2 * len * (bk + 1) \<le> 2 * len * nb" using bk by (intro mult_le_mono) simp_all
  then have s2: "start + 2 * len \<le> 256" using dv by (simp add: start_def)
  then have s1: "start < n" using len by (simp add: n_def)
  define g' where "g' = ntt_inner (zetas ! (k0 + bk)) start len 0 g"
  have step: "ntt_blocks len start (k0 + bk) g = ntt_blocks len (start + 2 * len) (k0 + bk + 1) g'"
    using s1 len by (subst ntt_blocks.simps) (simp add: g'_def)
  have lg': "length g' = 256" using Suc.prems(2) by (simp add: g'_def ntt_inner_length)
  have gn: "g' ! p =
     (if start \<le> p \<and> p < start + len
        then fieldAdd (g ! p) (fieldMul (zetas ! (k0 + bk)) (g ! (p + len)))
      else if start + len \<le> p \<and> p < start + 2 * len
        then fieldSub (g ! (p - len)) (fieldMul (zetas ! (k0 + bk)) (g ! p))
      else g ! p)" if p: "p < 256" for p
    using ntt_inner_nth[of start len g p "zetas ! (k0 + bk)" 0] s2 Suc.prems(2) p
    by (simp add: g'_def)
  have gf: "g ! p = f ! p" if "start \<le> p" "p < 256" for p
    using Suc.prems(3) that by (simp add: start_def)
  have inv': "\<forall>p<256. g' ! p = (if p < 2 * len * (bk + 1) then ntt_layer_nth len k0 f p else f ! p)"
  proof (intro allI impI)
    fix p :: nat assume p: "p < 256"
    consider (lo) "p < start" | (a) "start \<le> p" "p < start + len"
      | (b) "start + len \<le> p" "p < start + 2 * len" | (hi) "start + 2 * len \<le> p"
      by linarith
    then show "g' ! p = (if p < 2 * len * (bk + 1) then ntt_layer_nth len k0 f p else f ! p)"
    proof cases
      case lo
      then have "g' ! p = g ! p" using gn[OF p] by simp
      also have "\<dots> = ntt_layer_nth len k0 f p" using Suc.prems(3) p lo by (simp add: start_def)
      finally show ?thesis using lo by (simp add: start_def)
    next
      case a
      have dm: "p div (2 * len) = bk" "p mod (2 * len) = p - 2 * len * bk"
        using a len by (intro blk_div_mod; simp add: start_def)+
      have "g' ! p = fieldAdd (f ! p) (fieldMul (zetas ! (k0 + bk)) (f ! (p + len)))"
        using gn[OF p] a gf[of p] gf[of "p + len"] s2 p by simp
      also have "\<dots> = ntt_layer_nth len k0 f p"
        using a by (auto simp: ntt_layer_nth_def dm start_def Let_def)
      finally show ?thesis using a by (simp add: start_def)
    next
      case b
      have dm: "p div (2 * len) = bk" "p mod (2 * len) = p - 2 * len * bk"
        using b len by (intro blk_div_mod; simp add: start_def)+
      have "g' ! p = fieldSub (f ! (p - len)) (fieldMul (zetas ! (k0 + bk)) (f ! p))"
        using gn[OF p] b gf[of p] gf[of "p - len"] s2 p by simp
      also have "\<dots> = ntt_layer_nth len k0 f p"
        using b by (auto simp: ntt_layer_nth_def dm start_def Let_def)
      finally show ?thesis using b by (simp add: start_def)
    next
      case hi
      then have "g' ! p = f ! p" using gn[OF p] gf[of p] p by simp
      then show ?thesis using hi by (simp add: start_def)
    qed
  qed
  have "ntt_blocks len (2 * len * (bk + 1)) (k0 + (bk + 1)) g' = (k0 + nb, ntt_layer len k0 f)"
    using Suc.hyps(2) bk lg' inv' by (intro Suc.hyps(1)) simp_all
  then show ?case
    using step by (simp add: start_def algebra_simps)
qed

lemma ntt_blocks_layer0:
  assumes "0 < len" "2 * len * nb = 256" "length f = 256"
  shows "ntt_blocks len 0 k0 f = (k0 + nb, ntt_layer len k0 f)"
  using ntt_blocks_layer[OF assms, of 0 f k0] assms(3) by simp

lemma invNTT_inner_length: "length (invNTT_inner zeta start len j f) = length f"
proof (induction zeta start len j f rule: invNTT_inner.induct)
  case (1 zeta start len j f)
  show ?case using 1 by (subst invNTT_inner.simps) (simp add: Let_def)
qed

lemma invNTT_inner_nth:
  assumes "start + 2 * len \<le> length f" "p < length f"
  shows "invNTT_inner zeta start len j f ! p =
     (if start + j \<le> p \<and> p < start + len
        then fieldAdd (f ! p) (f ! (p + len))
      else if start + len + j \<le> p \<and> p < start + 2 * len
        then fieldMul zeta (fieldSub (f ! (p - len)) (f ! p))
      else f ! p)"
  using assms
proof (induction "len - j" arbitrary: j f)
  case 0
  then have False: "\<not> j < len" by simp
  have e: "invNTT_inner zeta start len j f = f"
    using False by (subst invNTT_inner.simps) simp
  show ?case using False by (auto simp: e)
next
  case (Suc m)
  then have True: "j < len" by simp
  note 1 = Suc
  show ?case
  proof -
    define t where "t = f ! (start + j)"
    define hi where "hi = f ! (start + len + j)"
    define f' where "f' = f[start + j := fieldAdd t hi, start + len + j := fieldMul zeta (fieldSub t hi)]"
    have lf': "length f' = length f" by (simp add: f'_def)
    have step: "invNTT_inner zeta start len j f = invNTT_inner zeta start len (Suc j) f'"
      using True by (subst invNTT_inner.simps) (simp add: Let_def f'_def t_def hi_def)
    have ih: "invNTT_inner zeta start len (Suc j) f' ! p =
     (if start + Suc j \<le> p \<and> p < start + len
        then fieldAdd (f' ! p) (f' ! (p + len))
      else if start + len + Suc j \<le> p \<and> p < start + 2 * len
        then fieldMul zeta (fieldSub (f' ! (p - len)) (f' ! p))
      else f' ! p)"
      using True 1(2,3,4) lf' by (intro 1(1)) simp_all
    have n1: "f' ! x = f ! x" if "x \<noteq> start + j" "x \<noteq> start + len + j" for x
      using that by (simp add: f'_def)
    have n2: "f' ! (start + j) = fieldAdd t hi"
      using 1(3) True by (simp add: f'_def)
    have n3: "f' ! (start + len + j) = fieldMul zeta (fieldSub t hi)"
      using 1(3) True by (simp add: f'_def)
    consider (a) "p = start + j" | (b) "p = start + len + j"
      | (c) "start + j < p" "p < start + len" | (d) "start + len + j < p" "p < start + 2 * len"
      | (e) "p < start + j" | (f) "start + len \<le> p" "p < start + len + j" | (g) "start + 2 * len \<le> p"
      by linarith
    then show ?thesis
    proof cases
      case a
      then show ?thesis unfolding step ih using True n2 by (simp add: t_def hi_def add_ac)
    next
      case b
      then show ?thesis unfolding step ih using True n3 by (simp add: t_def hi_def add_ac)
    next
      case c
      then show ?thesis unfolding step ih using True n1[of p] n1[of "p + len"] by simp
    next
      case d
      then show ?thesis unfolding step ih using True n1[of p] n1[of "p - len"] by simp
    next
      case e
      then show ?thesis unfolding step ih using True n1[of p] by simp
    next
      case f
      then show ?thesis unfolding step ih using True n1[of p] by simp
    next
      case g
      then show ?thesis unfolding step ih using True n1[of p] by simp
    qed
  qed
qed

lemma invNTT_blocks_layer:
  assumes len: "0 < len" and dv: "2 * len * nb = 256" and lf: "length f = 256"
    and bk: "bk \<le> nb" and lg: "length g = 256"
    and inv: "\<forall>p<256. g ! p = (if p < 2 * len * bk then invNTT_layer_nth len k0 f p else f ! p)"
  shows "invNTT_blocks len (2 * len * bk) (k0 - bk) g = (k0 - nb, invNTT_layer len k0 f)"
  using bk lg inv
proof (induction "nb - bk" arbitrary: bk g)
  case 0
  then have e: "bk = nb" by simp
  have "g = invNTT_layer len k0 f"
    using 0 e dv by (intro nth_equalityI) (simp_all add: invNTT_layer_def)
  then show ?case
    using dv by (subst invNTT_blocks.simps) (simp add: e n_def)
next
  case (Suc m)
  then have bk: "bk < nb" by simp
  define start where "start = 2 * len * bk"
  have "2 * len * (bk + 1) \<le> 2 * len * nb" using bk by (intro mult_le_mono) simp_all
  then have s2: "start + 2 * len \<le> 256" using dv by (simp add: start_def)
  then have s1: "start < n" using len by (simp add: n_def)
  define g' where "g' = invNTT_inner (q - zetas ! (k0 - bk)) start len 0 g"
  have step: "invNTT_blocks len start (k0 - bk) g = invNTT_blocks len (start + 2 * len) (k0 - bk - 1) g'"
    using s1 len by (subst invNTT_blocks.simps) (simp add: g'_def)
  have lg': "length g' = 256" using Suc.prems(2) by (simp add: g'_def invNTT_inner_length)
  have gn: "g' ! p =
     (if start \<le> p \<and> p < start + len
        then fieldAdd (g ! p) (g ! (p + len))
      else if start + len \<le> p \<and> p < start + 2 * len
        then fieldMul (q - zetas ! (k0 - bk)) (fieldSub (g ! (p - len)) (g ! p))
      else g ! p)" if p: "p < 256" for p
    using invNTT_inner_nth[of start len g p "q - zetas ! (k0 - bk)" 0] s2 Suc.prems(2) p
    by (simp add: g'_def)
  have gf: "g ! p = f ! p" if "start \<le> p" "p < 256" for p
    using Suc.prems(3) that by (simp add: start_def)
  have inv': "\<forall>p<256. g' ! p = (if p < 2 * len * (bk + 1) then invNTT_layer_nth len k0 f p else f ! p)"
  proof (intro allI impI)
    fix p :: nat assume p: "p < 256"
    consider (lo) "p < start" | (a) "start \<le> p" "p < start + len"
      | (b) "start + len \<le> p" "p < start + 2 * len" | (hi) "start + 2 * len \<le> p"
      by linarith
    then show "g' ! p = (if p < 2 * len * (bk + 1) then invNTT_layer_nth len k0 f p else f ! p)"
    proof cases
      case lo
      then have "g' ! p = g ! p" using gn[OF p] by simp
      also have "\<dots> = invNTT_layer_nth len k0 f p" using Suc.prems(3) p lo by (simp add: start_def)
      finally show ?thesis using lo by (simp add: start_def)
    next
      case a
      have dm: "p div (2 * len) = bk" "p mod (2 * len) = p - 2 * len * bk"
        using a len by (intro blk_div_mod; simp add: start_def)+
      have "g' ! p = fieldAdd (f ! p) (f ! (p + len))"
        using gn[OF p] a gf[of p] gf[of "p + len"] s2 p by simp
      also have "\<dots> = invNTT_layer_nth len k0 f p"
        using a by (auto simp: invNTT_layer_nth_def dm start_def Let_def)
      finally show ?thesis using a by (simp add: start_def)
    next
      case b
      have dm: "p div (2 * len) = bk" "p mod (2 * len) = p - 2 * len * bk"
        using b len by (intro blk_div_mod; simp add: start_def)+
      have "g' ! p = fieldMul (q - zetas ! (k0 - bk)) (fieldSub (f ! (p - len)) (f ! p))"
        using gn[OF p] b gf[of p] gf[of "p - len"] s2 p by simp
      also have "\<dots> = invNTT_layer_nth len k0 f p"
        using b by (auto simp: invNTT_layer_nth_def dm start_def Let_def)
      finally show ?thesis using b by (simp add: start_def)
    next
      case hi
      then have "g' ! p = f ! p" using gn[OF p] gf[of p] p by simp
      then show ?thesis using hi by (simp add: start_def)
    qed
  qed
  have "invNTT_blocks len (2 * len * (bk + 1)) (k0 - (bk + 1)) g' = (k0 - nb, invNTT_layer len k0 f)"
    using Suc.hyps(2) bk lg' inv' by (intro Suc.hyps(1)) simp_all
  then show ?case
    using step by (simp add: start_def algebra_simps)
qed

lemma invNTT_blocks_layer0:
  assumes "0 < len" "2 * len * nb = 256" "length f = 256"
  shows "invNTT_blocks len 0 k0 f = (k0 - nb, invNTT_layer len k0 f)"
  using invNTT_blocks_layer[OF assms, of 0 f k0] assms(3) by simp

lemma zetas_length: "length zetas = 256"
  by (simp add: zetas_def)


lemma zetas_pairs_128:
  "list_all2 zeta_pair_ok (take 128 (drop 128 zetas)) (rev (take 128 (drop 128 zetas)))"
  by (simp add: zetas_def zeta_pair_ok_def)

lemma butterfly_lo_algebra:
  fixes a t c Q :: int
  shows "((c * ((a + t) mod Q)) mod Q + (c * ((a - t) mod Q)) mod Q) mod Q = (2 * c * a) mod Q"
proof -
  have "((c * ((a + t) mod Q)) mod Q + (c * ((a - t) mod Q)) mod Q) mod Q
      = (c * (a + t) + c * (a - t)) mod Q"
    by (simp add: mod_simps)
  also have "c * (a + t) + c * (a - t) = 2 * c * a" by (simp add: algebra_simps)
  finally show ?thesis .
qed

lemma butterfly_hi_algebra:
  fixes a b c z Zi Ri Q :: int
  assumes E: "(z * Zi * Ri * Ri) mod Q = 1"
  defines "t \<equiv> (z * b * Ri) mod Q"
  shows "(Zi * (((c * ((a + t) mod Q)) mod Q - (c * ((a - t) mod Q)) mod Q) mod Q) * Ri) mod Q
       = (2 * c * b) mod Q"
proof -
  have i: "((c * ((a + t) mod Q)) mod Q - (c * ((a - t) mod Q)) mod Q) mod Q
      = (c * (a + t) - c * (a - t)) mod Q"
    by (simp add: mod_simps)
  have "(Zi * (((c * ((a + t) mod Q)) mod Q - (c * ((a - t) mod Q)) mod Q) mod Q) * Ri) mod Q
      = ((Zi * Ri) * ((c * (a + t) - c * (a - t)) mod Q)) mod Q"
    by (simp only: i mult.assoc mult.commute mult.left_commute)
  also have "\<dots> = ((Zi * Ri) * (c * (a + t) - c * (a - t))) mod Q"
    by (simp only: mod_mult_right_eq)
  also have "\<dots> = (Zi * (c * (a + t) - c * (a - t)) * Ri) mod Q"
    by (simp only: mult.assoc mult.commute mult.left_commute)
  finally have "(Zi * (((c * ((a + t) mod Q)) mod Q - (c * ((a - t) mod Q)) mod Q) mod Q) * Ri) mod Q
      = (Zi * (c * (a + t) - c * (a - t)) * Ri) mod Q" .
  also have "Zi * (c * (a + t) - c * (a - t)) * Ri = (2 * c * Zi * Ri) * t"
    by (simp add: algebra_simps)
  also have "((2 * c * Zi * Ri) * t) mod Q = ((2 * c * Zi * Ri) * (z * b * Ri)) mod Q"
    unfolding t_def by (simp add: mod_simps)
  also have "(2 * c * Zi * Ri) * (z * b * Ri) = (2 * c * b) * (z * Zi * Ri * Ri)"
    by (simp add: algebra_simps)
  also have "((2 * c * b) * (z * Zi * Ri * Ri)) mod Q = ((2 * c * b) * ((z * Zi * Ri * Ri) mod Q)) mod Q"
    by (simp add: mod_simps)
  also have "\<dots> = (2 * c * b) mod Q" by (simp add: E)
  finally show ?thesis .
qed

lemma zeta_pair_inverse:
  assumes "zeta_pair_ok z z'"
  shows "(uint z * (8380417 - uint z') * 8265825 * 8265825) mod 8380417 = 1"
proof -
  define Q :: int where "Q = 8380417"
  define P where "P = uint z * uint z'"
  have P: "P mod Q = 6014466" using assms by (simp add: zeta_pair_ok_def P_def Q_def)
  have "uint z * (Q - uint z') * 8265825 * 8265825
      = Q * (uint z * 8265825 * 8265825) + (- (8265825 * 8265825)) * P"
    by (simp add: algebra_simps P_def)
  then have "(uint z * (Q - uint z') * 8265825 * 8265825) mod Q
      = ((- (8265825 * 8265825)) * P) mod Q"
    by (simp only: mod_mult_self4)
  also have "\<dots> = ((- (8265825 * 8265825)) * (P mod Q)) mod Q"
    by (simp only: mod_mult_right_eq)
  also have "\<dots> = 1" by (simp add: P) (simp add: Q_def)
  finally show ?thesis by (simp add: Q_def)
qed

lemma uint_lt_q_iff: "(uint (x :: 32 word) < 8380417) = (unat x < 8380417)"
  by (simp only: unat_lt_q_iff)

lemma uint_fieldSub:
  fixes a b :: "32 word"
  assumes a: "uint a < 8380417" and b: "uint b < 8380417"
  shows "uint (fieldSub a b) = (uint a - uint b) mod 8380417"
proof -
  have ua: "unat a < 8380417" "unat b < 8380417" using a b by (simp_all only: unat_lt_q_iff)
  have "unat (fieldSub a b) = (unat a + 8380417 - unat b) mod 8380417"
    by (rule unat_fieldSub[OF ua])
  then have "int (unat (fieldSub a b)) = int ((unat a + 8380417 - unat b) mod 8380417)"
    by (rule arg_cong)
  also have "\<dots> = (int (unat a) + 8380417 - int (unat b)) mod 8380417"
    using ua by (simp add: zmod_int of_nat_diff)
  also have "\<dots> = (uint a - uint b) mod 8380417"
  proof -
    have "int (unat a) + 8380417 - int (unat b) = (uint a - uint b) + 8380417" by simp
    then show ?thesis by (simp only: mod_add_self2)
  qed
  finally show ?thesis by (simp only: of_nat_unat)
qed

lemma uint_fieldMul:
  fixes a b :: "32 word"
  assumes a: "uint a < 8380417" and b: "uint b < 8380417"
  shows "uint (fieldMul a b) = (uint a * uint b * 8265825) mod 8380417"
proof -
  have ua: "unat a < 8380417" "unat b < 8380417" using a b by (simp_all only: unat_lt_q_iff)
  have "unat (fieldMul a b) = (unat a * unat b * 8265825) mod 8380417"
    by (rule unat_fieldMul[OF ua])
  then have "int (unat (fieldMul a b)) = int ((unat a * unat b * 8265825) mod 8380417)"
    by (rule arg_cong)
  then show ?thesis
    by (simp only: of_nat_unat zmod_int of_nat_mult of_nat_numeral)
qed

lemma fe_ops_valid:
  fixes a b :: "32 word"
  assumes "uint a < 8380417" "uint b < 8380417"
  shows "uint (fieldAdd a b) < 8380417" "uint (fieldSub a b) < 8380417" "uint (fieldMul a b) < 8380417"
  by (simp_all add: uint_fieldAdd[OF assms] uint_fieldSub[OF assms] uint_fieldMul[OF assms])

lemma valid_poly_nth: "valid_poly f \<Longrightarrow> p < 256 \<Longrightarrow> uint (f ! p) < 8380417"
  by (simp add: valid_poly_def list_all_length uint_lt_q_iff)

lemma valid_polyI:
  assumes "length f = 256" "\<And>p. p < 256 \<Longrightarrow> uint (f ! p) < 8380417"
  shows "valid_poly f"
  using assms by (simp add: valid_poly_def list_all_length uint_lt_q_iff)

lemma smul_length [simp]: "length (smul c f) = length f"
  by (simp add: smul_def)

lemma uint_smul_nth:
  assumes "p < length f"
  shows "uint (smul c f ! p) = (int c * uint (f ! p)) mod 8380417"
proof -
  define m where "m = (c * unat (f ! p)) mod 8380417"
  have m: "m < 8380417" by (simp add: m_def)
  have "smul c f ! p = of_nat m" using assms by (simp add: smul_def m_def)
  then have "unat (smul c f ! p) = m" using m by (simp add: unat_of_nat)
  then have "int (unat (smul c f ! p)) = int m" by (rule arg_cong)
  then show ?thesis by (simp only: of_nat_unat m_def zmod_int of_nat_mult of_nat_numeral)
qed

lemma smul_valid: "length f = 256 \<Longrightarrow> valid_poly (smul c f)"
  by (rule valid_polyI) (simp_all add: uint_smul_nth)

lemma ntt_layer_length [simp]: "length (ntt_layer len k0 f) = 256"
  by (simp add: ntt_layer_def)

lemma invNTT_layer_length [simp]: "length (invNTT_layer len k0 f) = 256"
  by (simp add: invNTT_layer_def)

lemma ntt_layer_nth_eq: "p < 256 \<Longrightarrow> ntt_layer len k0 f ! p = ntt_layer_nth len k0 f p"
  by (simp add: ntt_layer_def)

lemma invNTT_layer_nth_eq: "p < 256 \<Longrightarrow> invNTT_layer len k0 f ! p = invNTT_layer_nth len k0 f p"
  by (simp add: invNTT_layer_def)

lemma word32_eq_uintI: "uint (x :: 32 word) = uint y \<Longrightarrow> x = y"
  by (simp only: word_uint_eq_iff)

lemma block_facts:
  fixes len nb x :: nat
  assumes len: "0 < len" and dv: "2 * len * nb = 256" and x: "x < 256"
  shows "x div (2 * len) < nb" "2 * len * (x div (2 * len)) \<le> x"
    "x < 2 * len * (x div (2 * len)) + 2 * len" "2 * len * (x div (2 * len)) + 2 * len \<le> 256"
    "x mod (2 * len) = x - 2 * len * (x div (2 * len))"
proof -
  have m0: "0 < 2 * len" using len by simp
  have "x < 2 * len * nb" using x dv by simp
  then show bk: "x div (2 * len) < nb"
    using m0 by (simp add: less_mult_imp_div_less mult.commute)
  show lo: "2 * len * (x div (2 * len)) \<le> x" by simp
  show hi: "x < 2 * len * (x div (2 * len)) + 2 * len"
    using m0 by (metis dividend_less_times_div add.commute)
  have "2 * len * (x div (2 * len) + 1) \<le> 2 * len * nb" using bk by (intro mult_le_mono) simp_all
  then show "2 * len * (x div (2 * len)) + 2 * len \<le> 256" using dv by simp
  show "x mod (2 * len) = x - 2 * len * (x div (2 * len))"
    using blk_div_mod(2)[OF m0 lo hi] .
qed

lemma inv_layer_of_layer_nth:
  assumes len: "0 < len" and dv: "2 * len * nb = 256" and vf: "valid_poly f"
    and zs: "\<forall>b<nb. zeta_pair_ok (zetas ! (nb + b)) (zetas ! (2 * nb - 1 - b))
                 \<and> uint (zetas ! (nb + b)) < 8380417"
    and p: "p < 256"
  shows "uint (invNTT_layer_nth len (2 * nb - 1) (smul c (ntt_layer len nb f)) p)
       = (2 * int c * uint (f ! p)) mod 8380417"
proof -
  define bk where "bk = p div (2 * len)"
  define z where "z = zetas ! (nb + bk)"
  define z' where "z' = zetas ! (2 * nb - 1 - bk)"
  define F where "F = ntt_layer len nb f"
  define X where "X = smul c F"
  have m0: "0 < 2 * len" using len by simp
  have "p < 2 * len * nb" using p dv by simp
  then have bk: "bk < nb" unfolding bk_def using m0 by (simp add: less_mult_imp_div_less mult.commute)
  have lo: "2 * len * bk \<le> p" unfolding bk_def by simp
  have hi: "p < 2 * len * bk + 2 * len"
    unfolding bk_def using m0 by (metis dividend_less_times_div add.commute)
  have "2 * len * (bk + 1) \<le> 2 * len * nb" using bk by (intro mult_le_mono) simp_all
  then have blk_end: "2 * len * bk + 2 * len \<le> 256" using dv by simp
  have pk: "zeta_pair_ok z z'" and vz: "uint z < 8380417"
    using zs bk by (simp_all add: z_def z'_def)
  have vz': "0 < uint z'" "uint z' < 8380417" using pk by (simp_all add: zeta_pair_ok_def)
  have E: "(uint z * (8380417 - uint z') * 8265825 * 8265825) mod 8380417 = 1"
    by (rule zeta_pair_inverse[OF pk])
  have uZi: "uint (q - z') = 8380417 - uint z'"
    using vz' by (simp add: q_def uint_sub_if')
  have vZi: "uint (q - z') < 8380417" using uZi vz' by simp
  have vF: "uint (F ! x) < 8380417" if x: "x < 256" for x
  proof -
    have a: "uint (f ! y) < 8380417" if "y < 256" for y using vf that by (rule valid_poly_nth)
    note bf = block_facts[OF len dv x]
    have zz: "uint (zetas ! (nb + x div (2 * len))) < 8380417"
      using zs bf(1) by simp
    show ?thesis
    proof (cases "x mod (2 * len) < len")
      case True
      then have "x + len < 256" using bf(2,4,5) by simp
      then show ?thesis
        using True a[OF x] a[of "x + len"] zz
        by (simp add: F_def ntt_layer_nth_eq x ntt_layer_nth_def Let_def fe_ops_valid)
    next
      case False
      have "x - len < 256" using x by simp
      then show ?thesis
        using False a[OF x] a[of "x - len"] zz
        by (simp add: F_def ntt_layer_nth_eq x ntt_layer_nth_def Let_def fe_ops_valid)
    qed
  qed
  have uX: "uint (X ! x) = (int c * uint (F ! x)) mod 8380417" if x: "x < 256" for x
    unfolding X_def using x by (intro uint_smul_nth) (simp add: F_def)
  have vX: "uint (X ! x) < 8380417" if x: "x < 256" for x
    using uX[OF x] by simp
  have vfp: "uint (f ! y) < 8380417" if "y < 256" for y using vf that by (rule valid_poly_nth)
  show ?thesis
  proof (cases "p mod (2 * len) < len")
    case True
    have pm: "p mod (2 * len) = p - 2 * len * bk" using blk_div_mod(2)[OF m0 lo hi] .
    have pl: "p + len < 256" using True pm lo blk_end by simp
    have d1: "(p + len) div (2 * len) = bk" "(p + len) mod (2 * len) = p + len - 2 * len * bk"
      using True pm lo hi by (intro blk_div_mod[OF m0]; simp)+
    have nlt: "\<not> (p + len) mod (2 * len) < len" using d1(2) lo by simp
    define a where "a = uint (f ! p)"
    define b where "b = uint (f ! (p + len))"
    define t where "t = (uint z * b * 8265825) mod 8380417"
    have ut: "uint (fieldMul z (f ! (p + len))) = t"
      using vz vfp[OF pl] by (simp add: uint_fieldMul t_def b_def)
    have vt: "uint (fieldMul z (f ! (p + len))) < 8380417" using ut by (simp add: t_def)
    have Fp: "uint (F ! p) = (a + t) mod 8380417"
      using True vfp[OF p] vt p
      by (simp add: F_def ntt_layer_nth_eq ntt_layer_nth_def Let_def bk_def[symmetric] z_def[symmetric]
          uint_fieldAdd ut a_def)
    have Fpl: "uint (F ! (p + len)) = (a - t) mod 8380417"
      using nlt vfp[OF p] vt pl
      by (simp add: F_def ntt_layer_nth_eq ntt_layer_nth_def Let_def d1(1) z_def[symmetric]
          uint_fieldSub ut a_def)
    have "uint (invNTT_layer_nth len (2 * nb - 1) X p) = uint (fieldAdd (X ! p) (X ! (p + len)))"
      using True by (simp add: invNTT_layer_nth_def Let_def)
    also have "\<dots> = (uint (X ! p) + uint (X ! (p + len))) mod 8380417"
      using vX[OF p] vX[OF pl] by (rule uint_fieldAdd)
    also have "\<dots> = ((int c * ((a + t) mod 8380417)) mod 8380417
                      + (int c * ((a - t) mod 8380417)) mod 8380417) mod 8380417"
      by (simp only: uX[OF p] uX[OF pl] Fp Fpl)
    also have "\<dots> = (2 * int c * a) mod 8380417" by (rule butterfly_lo_algebra)
    finally show ?thesis by (simp only: X_def F_def a_def)
  next
    case False
    have pm: "p mod (2 * len) = p - 2 * len * bk" using blk_div_mod(2)[OF m0 lo hi] .
    have lp: "len \<le> p - 2 * len * bk" using False pm by simp
    then have lp': "len \<le> p" by simp
    have pl: "p - len < 256" using p by simp
    have d1: "(p - len) div (2 * len) = bk" "(p - len) mod (2 * len) = p - len - 2 * len * bk"
      using lp lo hi by (intro blk_div_mod[OF m0]; simp)+
    have "p < s + 2 * len \<Longrightarrow> len \<le> p - s \<Longrightarrow> p - len - s < len" for s :: nat
      using len by linarith
    then have "p - len - 2 * len * bk < len" using hi lp by blast
    then have lt: "(p - len) mod (2 * len) < len" by (simp only: d1(2))
    define a where "a = uint (f ! (p - len))"
    define b where "b = uint (f ! p)"
    define t where "t = (uint z * b * 8265825) mod 8380417"
    have ut: "uint (fieldMul z (f ! p)) = t"
      using vz vfp[OF p] by (simp add: uint_fieldMul t_def b_def)
    have vt: "uint (fieldMul z (f ! p)) < 8380417" using ut by (simp add: t_def)
    have e: "p - len + len = p" using lp' by simp
    have Fpl: "uint (F ! (p - len)) = (a + t) mod 8380417"
      using lt vfp[OF pl] vt pl
      by (simp add: F_def ntt_layer_nth_eq ntt_layer_nth_def Let_def d1(1) z_def[symmetric] e
          uint_fieldAdd ut a_def)
    have Fp: "uint (F ! p) = (a - t) mod 8380417"
      using False vfp[OF pl] vt p
      by (simp add: F_def ntt_layer_nth_eq ntt_layer_nth_def Let_def bk_def[symmetric] z_def[symmetric]
          uint_fieldSub ut a_def)
    have ks: "2 * nb - 1 - p div (2 * len) = 2 * nb - 1 - bk" by (simp add: bk_def)
    have "uint (invNTT_layer_nth len (2 * nb - 1) X p)
        = uint (fieldMul (q - z') (fieldSub (X ! (p - len)) (X ! p)))"
      using False by (simp add: invNTT_layer_nth_def Let_def z'_def bk_def)
    also have "\<dots> = (uint (q - z') * uint (fieldSub (X ! (p - len)) (X ! p)) * 8265825) mod 8380417"
      using vZi fe_ops_valid(2)[OF vX[OF pl] vX[OF p]] by (rule uint_fieldMul)
    also have "\<dots> = ((8380417 - uint z') * ((uint (X ! (p - len)) - uint (X ! p)) mod 8380417) * 8265825) mod 8380417"
      by (simp only: uZi uint_fieldSub[OF vX[OF pl] vX[OF p]])
    also have "\<dots> = ((8380417 - uint z') * (((int c * ((a + t) mod 8380417)) mod 8380417
                      - (int c * ((a - t) mod 8380417)) mod 8380417) mod 8380417) * 8265825) mod 8380417"
      by (simp only: uX[OF p] uX[OF pl] Fp Fpl)
    also have "\<dots> = (2 * int c * b) mod 8380417"
      unfolding t_def by (rule butterfly_hi_algebra[OF E])
    finally show ?thesis by (simp only: X_def F_def b_def)
  qed
qed

lemma zetas_pairs_64:
  "list_all2 zeta_pair_ok (take 64 (drop 64 zetas)) (rev (take 64 (drop 64 zetas)))"
  by (simp add: zetas_def zeta_pair_ok_def)

lemma zetas_pairs_32:
  "list_all2 zeta_pair_ok (take 32 (drop 32 zetas)) (rev (take 32 (drop 32 zetas)))"
  by (simp add: zetas_def zeta_pair_ok_def)

lemma zetas_pairs_16:
  "list_all2 zeta_pair_ok (take 16 (drop 16 zetas)) (rev (take 16 (drop 16 zetas)))"
  by (simp add: zetas_def zeta_pair_ok_def)

lemma zetas_pairs_8:
  "list_all2 zeta_pair_ok (take 8 (drop 8 zetas)) (rev (take 8 (drop 8 zetas)))"
  by (simp add: zetas_def zeta_pair_ok_def)

lemma zetas_pairs_4:
  "list_all2 zeta_pair_ok (take 4 (drop 4 zetas)) (rev (take 4 (drop 4 zetas)))"
  by (simp add: zetas_def zeta_pair_ok_def)

lemma zetas_pairs_2:
  "list_all2 zeta_pair_ok (take 2 (drop 2 zetas)) (rev (take 2 (drop 2 zetas)))"
  by (simp add: zetas_def zeta_pair_ok_def)

lemma zetas_pairs_1:
  "list_all2 zeta_pair_ok (take 1 (drop 1 zetas)) (rev (take 1 (drop 1 zetas)))"
  by (simp add: zetas_def zeta_pair_ok_def)

lemma zetas_pairs_nth:
  assumes pr: "list_all2 zeta_pair_ok (take nb (drop nb zetas)) (rev (take nb (drop nb zetas)))"
    and nb: "2 * nb \<le> 256"
  shows "\<forall>b<nb. zeta_pair_ok (zetas ! (nb + b)) (zetas ! (2 * nb - 1 - b))
                 \<and> uint (zetas ! (nb + b)) < 8380417"
proof (intro allI impI)
  fix b assume b: "b < nb"
  let ?S = "take nb (drop nb zetas)"
  have lS: "length ?S = nb" using nb by (simp add: zetas_length)
  have S: "?S ! x = zetas ! (nb + x)" if "x < nb" for x
    using that nb by (simp add: zetas_length)
  have R: "rev ?S ! x = zetas ! (2 * nb - 1 - x)" if x: "x < nb" for x
  proof -
    have "rev ?S ! x = ?S ! (nb - Suc x)" using x lS by (simp add: rev_nth)
    also have "\<dots> = zetas ! (nb + (nb - Suc x))" using x by (intro S) simp
    also have "nb + (nb - Suc x) = 2 * nb - 1 - x" using x by simp
    finally show ?thesis .
  qed
  have ok: "zeta_pair_ok (?S ! x) (rev ?S ! x)" if "x < nb" for x
    using list_all2_nthD[OF pr, of x] that lS by simp
  have 1: "zeta_pair_ok (zetas ! (nb + b)) (zetas ! (2 * nb - 1 - b))"
    using ok[OF b] by (simp only: S[OF b] R[OF b])
  have b': "nb - Suc b < nb" using b by simp
  have "zeta_pair_ok (zetas ! (nb + (nb - Suc b))) (zetas ! (2 * nb - 1 - (nb - Suc b)))"
    using ok[OF b'] by (simp only: S[OF b'] R[OF b'])
  moreover have "2 * nb - 1 - (nb - Suc b) = nb + b" using b by simp
  ultimately have "uint (zetas ! (nb + b)) < 8380417" by (simp add: zeta_pair_ok_def)
  then show "zeta_pair_ok (zetas ! (nb + b)) (zetas ! (2 * nb - 1 - b))
                 \<and> uint (zetas ! (nb + b)) < 8380417" using 1 by simp
qed

lemma inv_layer_of_layer:
  assumes len: "0 < len" and dv: "2 * len * nb = 256" and vf: "valid_poly f"
    and pr: "list_all2 zeta_pair_ok (take nb (drop nb zetas)) (rev (take nb (drop nb zetas)))"
  shows "invNTT_layer len (2 * nb - 1) (smul c (ntt_layer len nb f)) = smul (2 * c) f"
proof (rule nth_equalityI)
  show "length (invNTT_layer len (2 * nb - 1) (smul c (ntt_layer len nb f))) = length (smul (2 * c) f)"
    using vf by (simp add: valid_poly_def)
next
  fix p assume "p < length (invNTT_layer len (2 * nb - 1) (smul c (ntt_layer len nb f)))"
  then have p: "p < 256" by simp
  have nb: "2 * nb \<le> 256" using dv len
    by (metis mult.assoc mult.commute mult_le_mono2 mult_1 Suc_leI One_nat_def nat_mult_1_right)
  have zs: "\<forall>b<nb. zeta_pair_ok (zetas ! (nb + b)) (zetas ! (2 * nb - 1 - b))
                 \<and> uint (zetas ! (nb + b)) < 8380417"
    by (rule zetas_pairs_nth[OF pr nb])
  have "uint (invNTT_layer_nth len (2 * nb - 1) (smul c (ntt_layer len nb f)) p)
       = (2 * int c * uint (f ! p)) mod 8380417"
    by (rule inv_layer_of_layer_nth[OF len dv vf zs p])
  also have "\<dots> = uint (smul (2 * c) f ! p)"
    using p vf by (simp add: uint_smul_nth valid_poly_def)
  finally have "invNTT_layer_nth len (2 * nb - 1) (smul c (ntt_layer len nb f)) p = smul (2 * c) f ! p"
    by (rule word32_eq_uintI)
  then show "invNTT_layer len (2 * nb - 1) (smul c (ntt_layer len nb f)) ! p = smul (2 * c) f ! p"
    using p by (simp add: invNTT_layer_nth_eq)
qed

lemma ntt_layer_valid:
  assumes len: "0 < len" and dv: "2 * len * nb = 256" and vf: "valid_poly f"
    and pr: "list_all2 zeta_pair_ok (take nb (drop nb zetas)) (rev (take nb (drop nb zetas)))"
  shows "valid_poly (ntt_layer len nb f)"
proof (rule valid_polyI)
  show "length (ntt_layer len nb f) = 256" by simp
next
  fix x :: nat assume x: "x < 256"
  have nb: "2 * nb \<le> 256" using dv len
    by (metis mult.assoc mult.commute mult_le_mono2 mult_1 Suc_leI One_nat_def nat_mult_1_right)
  have zs: "\<forall>b<nb. zeta_pair_ok (zetas ! (nb + b)) (zetas ! (2 * nb - 1 - b))
                 \<and> uint (zetas ! (nb + b)) < 8380417"
    by (rule zetas_pairs_nth[OF pr nb])
  have a: "uint (f ! y) < 8380417" if "y < 256" for y using vf that by (rule valid_poly_nth)
  note bf = block_facts[OF len dv x]
  have zz: "uint (zetas ! (nb + x div (2 * len))) < 8380417"
    using zs bf(1) by simp
  show "uint (ntt_layer len nb f ! x) < 8380417"
  proof (cases "x mod (2 * len) < len")
    case True
    then have "x + len < 256" using bf(2,4,5) by simp
    then show ?thesis
      using True a[OF x] a[of "x + len"] zz
      by (simp add: ntt_layer_nth_eq x ntt_layer_nth_def Let_def fe_ops_valid)
  next
    case False
    have "x - len < 256" using x by simp
    then show ?thesis
      using False a[OF x] a[of "x - len"] zz
      by (simp add: ntt_layer_nth_eq x ntt_layer_nth_def Let_def fe_ops_valid)
  qed
qed

lemma smul_1: "valid_poly x \<Longrightarrow> smul 1 x = x"
proof -
  assume v: "valid_poly x"
  have "of_nat (unat y mod 8380417) = y" if "y \<in> set x" for y :: "32 word"
  proof -
    have "unat y < 8380417" using v that by (simp add: valid_poly_def list_all_iff)
    then show ?thesis by simp
  qed
  then show ?thesis by (simp add: smul_def map_idI)
qed

lemma ntt_layers_step:
  assumes "0 < len" "2 * len * nb = 256" "length g = 256"
  shows "ntt_layers len nb g = ntt_layers (len div 2) (2 * nb) (ntt_layer len nb g)"
  using assms(1) by (subst ntt_layers.simps) (simp add: ntt_blocks_layer0[OF assms] mult_2)

lemma ntt_layers_0: "ntt_layers 0 k g = g"
  by (subst ntt_layers.simps) simp

lemma invNTT_layers_step:
  assumes "0 < len" "2 * len * nb = 256" "length g = 256" "len < 256"
  shows "invNTT_layers len k0 g = invNTT_layers (len * 2) (k0 - nb) (invNTT_layer len k0 g)"
  using assms(1,4) by (subst invNTT_layers.simps) (simp add: invNTT_blocks_layer0[OF assms(1,2,3)] n_def)

lemma invNTT_layers_end: "invNTT_layers 256 k g = g"
  by (subst invNTT_layers.simps) (simp add: n_def)

lemma ntt_unfold:
  assumes "length f = 256"
  shows "ntt f = ntt_layer 1 128 (ntt_layer 2 64 (ntt_layer 4 32 (ntt_layer 8 16
           (ntt_layer 16 8 (ntt_layer 32 4 (ntt_layer 64 2 (ntt_layer 128 1 f)))))))"
proof -
  have "ntt f = ntt_layers 64 2 (ntt_layer 128 1 f)"
    unfolding ntt_def using ntt_layers_step[of 128 1 f] assms by simp
  also have "\<dots> = ntt_layers 32 4 (ntt_layer 64 2 (ntt_layer 128 1 f))"
    using ntt_layers_step[of 64 2] by simp
  also have "\<dots> = ntt_layers 16 8 (ntt_layer 32 4 (ntt_layer 64 2 (ntt_layer 128 1 f)))"
    using ntt_layers_step[of 32 4] by simp
  also have "\<dots> = ntt_layers 8 16 (ntt_layer 16 8 (ntt_layer 32 4 (ntt_layer 64 2 (ntt_layer 128 1 f))))"
    using ntt_layers_step[of 16 8] by simp
  also have "\<dots> = ntt_layers 4 32 (ntt_layer 8 16 (ntt_layer 16 8 (ntt_layer 32 4 (ntt_layer 64 2 (ntt_layer 128 1 f)))))"
    using ntt_layers_step[of 8 16] by simp
  also have "\<dots> = ntt_layers 2 64 (ntt_layer 4 32 (ntt_layer 8 16 (ntt_layer 16 8 (ntt_layer 32 4 (ntt_layer 64 2 (ntt_layer 128 1 f))))))"
    using ntt_layers_step[of 4 32] by simp
  also have "\<dots> = ntt_layers 1 128 (ntt_layer 2 64 (ntt_layer 4 32 (ntt_layer 8 16 (ntt_layer 16 8 (ntt_layer 32 4 (ntt_layer 64 2 (ntt_layer 128 1 f)))))))"
    using ntt_layers_step[of 2 64] by simp
  also have "\<dots> = ntt_layers 0 256 (ntt_layer 1 128 (ntt_layer 2 64 (ntt_layer 4 32 (ntt_layer 8 16 (ntt_layer 16 8 (ntt_layer 32 4 (ntt_layer 64 2 (ntt_layer 128 1 f))))))))"
    using ntt_layers_step[of 1 128] by simp
  finally show ?thesis by (simp only: ntt_layers_0)
qed

lemma invNTT_layers_unfold:
  assumes "length g = 256"
  shows "invNTT_layers 1 255 g = invNTT_layer 128 1 (invNTT_layer 64 3 (invNTT_layer 32 7
           (invNTT_layer 16 15 (invNTT_layer 8 31 (invNTT_layer 4 63 (invNTT_layer 2 127
             (invNTT_layer 1 255 g)))))))"
proof -
  have "invNTT_layers 1 255 g = invNTT_layers 2 127 (invNTT_layer 1 255 g)"
    using invNTT_layers_step[of 1 128 g 255] assms by simp
  also have "\<dots> = invNTT_layers 4 63 (invNTT_layer 2 127 (invNTT_layer 1 255 g))"
    using invNTT_layers_step[of 2 64 _ 127] by simp
  also have "\<dots> = invNTT_layers 8 31 (invNTT_layer 4 63 (invNTT_layer 2 127 (invNTT_layer 1 255 g)))"
    using invNTT_layers_step[of 4 32 _ 63] by simp
  also have "\<dots> = invNTT_layers 16 15 (invNTT_layer 8 31 (invNTT_layer 4 63 (invNTT_layer 2 127 (invNTT_layer 1 255 g))))"
    using invNTT_layers_step[of 8 16 _ 31] by simp
  also have "\<dots> = invNTT_layers 32 7 (invNTT_layer 16 15 (invNTT_layer 8 31 (invNTT_layer 4 63 (invNTT_layer 2 127 (invNTT_layer 1 255 g)))))"
    using invNTT_layers_step[of 16 8 _ 15] by simp
  also have "\<dots> = invNTT_layers 64 3 (invNTT_layer 32 7 (invNTT_layer 16 15 (invNTT_layer 8 31 (invNTT_layer 4 63 (invNTT_layer 2 127 (invNTT_layer 1 255 g))))))"
    using invNTT_layers_step[of 32 4 _ 7] by simp
  also have "\<dots> = invNTT_layers 128 1 (invNTT_layer 64 3 (invNTT_layer 32 7 (invNTT_layer 16 15 (invNTT_layer 8 31 (invNTT_layer 4 63 (invNTT_layer 2 127 (invNTT_layer 1 255 g)))))))"
    using invNTT_layers_step[of 64 2 _ 3] by simp
  also have "\<dots> = invNTT_layers 256 0 (invNTT_layer 128 1 (invNTT_layer 64 3 (invNTT_layer 32 7 (invNTT_layer 16 15 (invNTT_layer 8 31 (invNTT_layer 4 63 (invNTT_layer 2 127 (invNTT_layer 1 255 g))))))))"
    using invNTT_layers_step[of 128 1 _ 1] by simp
  finally show ?thesis by (simp only: invNTT_layers_end)
qed

lemma invN_scale:
  fixes a :: int
  shows "((256 * a) mod 8380417 * 41978 * 8265825) mod 8380417 = (4193792 * a) mod 8380417"
proof -
  have "((256 * a) mod 8380417 * (41978 * 8265825)) mod 8380417
        = ((256 * a) * (41978 * 8265825)) mod 8380417"
    by (rule mod_mult_left_eq)
  also have "(256 * a) * (41978 * 8265825) = a * (88827597273600::int)" by simp
  also have "(a * (88827597273600::int)) mod 8380417 = (a * (88827597273600 mod 8380417)) mod 8380417"
    by (rule mod_mult_right_eq[symmetric])
  also have "(88827597273600::int) mod 8380417 = 4193792" by simp
  finally show ?thesis by (simp add: mult.assoc mult.commute[of a])
qed

lemma final_scale:
  assumes vf: "valid_poly f"
  shows "map (\<lambda>x. fieldMul x invN) (smul 256 f) = smul 4193792 f"
proof (rule nth_equalityI)
  show "length (map (\<lambda>x. fieldMul x invN) (smul 256 f)) = length (smul 4193792 f)" by simp
next
  fix p :: nat assume "p < length (map (\<lambda>x. fieldMul x invN) (smul 256 f))"
  then have p: "p < length f" by simp
  have lf: "length f = 256" using vf by (simp add: valid_poly_def)
  have vs: "valid_poly (smul 256 f)" using lf by (rule smul_valid)
  have a: "uint (smul 256 f ! p) < 8380417" using vs p lf by (simp add: valid_poly_nth)
  have i: "uint invN < 8380417" by (simp add: invN_def)
  have "uint (fieldMul (smul 256 f ! p) invN) = (uint (smul 256 f ! p) * uint invN * 8265825) mod 8380417"
    using a i by (rule uint_fieldMul)
  also have "\<dots> = ((256 * uint (f ! p)) mod 8380417 * 41978 * 8265825) mod 8380417"
    using p by (simp add: uint_smul_nth invN_def)
  also have "\<dots> = (4193792 * uint (f ! p)) mod 8380417" by (rule invN_scale)
  also have "\<dots> = uint (smul 4193792 f ! p)" using p by (simp add: uint_smul_nth)
  finally have "fieldMul (smul 256 f ! p) invN = smul 4193792 f ! p"
    by (rule word32_eq_uintI)
  then show "map (\<lambda>x. fieldMul x invN) (smul 256 f) ! p = smul 4193792 f ! p"
    using p by simp
qed

lemma invNTT_ntt_scaled:
  assumes vf: "valid_poly f"
  shows "invNTT (ntt f) = smul 4193792 f"
proof -
  have lf: "length f = 256" using vf by (simp add: valid_poly_def)
  define f7 where "f7 = ntt_layer 128 1 f"
  define f6 where "f6 = ntt_layer 64 2 f7"
  define f5 where "f5 = ntt_layer 32 4 f6"
  define f4 where "f4 = ntt_layer 16 8 f5"
  define f3 where "f3 = ntt_layer 8 16 f4"
  define f2 where "f2 = ntt_layer 4 32 f3"
  define f1 where "f1 = ntt_layer 2 64 f2"
  define f0 where "f0 = ntt_layer 1 128 f1"
  have v7: "valid_poly f7" unfolding f7_def by (rule ntt_layer_valid[OF _ _ vf zetas_pairs_1]) simp_all
  have v6: "valid_poly f6" unfolding f6_def by (rule ntt_layer_valid[OF _ _ v7 zetas_pairs_2]) simp_all
  have v5: "valid_poly f5" unfolding f5_def by (rule ntt_layer_valid[OF _ _ v6 zetas_pairs_4]) simp_all
  have v4: "valid_poly f4" unfolding f4_def by (rule ntt_layer_valid[OF _ _ v5 zetas_pairs_8]) simp_all
  have v3: "valid_poly f3" unfolding f3_def by (rule ntt_layer_valid[OF _ _ v4 zetas_pairs_16]) simp_all
  have v2: "valid_poly f2" unfolding f2_def by (rule ntt_layer_valid[OF _ _ v3 zetas_pairs_32]) simp_all
  have v1: "valid_poly f1" unfolding f1_def by (rule ntt_layer_valid[OF _ _ v2 zetas_pairs_64]) simp_all
  have v0: "valid_poly f0" unfolding f0_def by (rule ntt_layer_valid[OF _ _ v1 zetas_pairs_128]) simp_all
  have nf: "ntt f = f0"
    unfolding f0_def f1_def f2_def f3_def f4_def f5_def f6_def f7_def using lf by (rule ntt_unfold)
  have l0: "length f0 = 256" using v0 by (simp add: valid_poly_def)
  have s0: "invNTT_layer 1 255 f0 = smul 2 f1"
    using inv_layer_of_layer[OF _ _ v1 zetas_pairs_128, of 1 1] smul_1[OF v0]
    by (simp add: f0_def)
  have s1: "invNTT_layer 2 127 (smul 2 f1) = smul 4 f2"
    using inv_layer_of_layer[OF _ _ v2 zetas_pairs_64, of 2 2] by (simp add: f1_def)
  have s2: "invNTT_layer 4 63 (smul 4 f2) = smul 8 f3"
    using inv_layer_of_layer[OF _ _ v3 zetas_pairs_32, of 4 4] by (simp add: f2_def)
  have s3: "invNTT_layer 8 31 (smul 8 f3) = smul 16 f4"
    using inv_layer_of_layer[OF _ _ v4 zetas_pairs_16, of 8 8] by (simp add: f3_def)
  have s4: "invNTT_layer 16 15 (smul 16 f4) = smul 32 f5"
    using inv_layer_of_layer[OF _ _ v5 zetas_pairs_8, of 16 16] by (simp add: f4_def)
  have s5: "invNTT_layer 32 7 (smul 32 f5) = smul 64 f6"
    using inv_layer_of_layer[OF _ _ v6 zetas_pairs_4, of 32 32] by (simp add: f5_def)
  have s6: "invNTT_layer 64 3 (smul 64 f6) = smul 128 f7"
    using inv_layer_of_layer[OF _ _ v7 zetas_pairs_2, of 64 64] by (simp add: f6_def)
  have s7: "invNTT_layer 128 1 (smul 128 f7) = smul 256 f"
    using inv_layer_of_layer[OF _ _ vf zetas_pairs_1, of 128 128] by (simp add: f7_def)
  have "invNTT_layers 1 255 f0 = smul 256 f"
    by (simp only: invNTT_layers_unfold[OF l0] s0 s1 s2 s3 s4 s5 s6 s7)
  then show ?thesis
    by (simp only: invNTT_def nf final_scale[OF vf])
qed

lemma mont_exit:
  fixes a :: int
  assumes "0 \<le> a" "a < 8380417"
  shows "((4193792 * a) mod 8380417 * 1 * 8265825) mod 8380417 = a"
proof -
  have "((4193792 * a) mod 8380417 * 8265825) mod 8380417
        = ((4193792 * a) * 8265825) mod 8380417"
    by (rule mod_mult_left_eq)
  also have "(4193792 * a) * 8265825 = a * (34665150758400::int)" by simp
  also have "(a * (34665150758400::int)) mod 8380417 = (a * (34665150758400 mod 8380417)) mod 8380417"
    by (rule mod_mult_right_eq[symmetric])
  also have "(34665150758400::int) mod 8380417 = 1" by simp
  finally show ?thesis using assms by simp
qed

lemma fieldMul_one_smul:
  assumes vf: "valid_poly f"
  shows "map (\<lambda>x. fieldMul x 1) (smul 4193792 f) = f"
proof (rule nth_equalityI)
  show "length (map (\<lambda>x. fieldMul x 1) (smul 4193792 f)) = length f" by simp
next
  fix p :: nat assume "p < length (map (\<lambda>x. fieldMul x 1) (smul 4193792 f))"
  then have p: "p < length f" by simp
  have lf: "length f = 256" using vf by (simp add: valid_poly_def)
  have vs: "valid_poly (smul 4193792 f)" using lf by (rule smul_valid)
  have a: "uint (smul 4193792 f ! p) < 8380417" using vs p lf by (simp add: valid_poly_nth)
  have b: "uint (f ! p) < 8380417" using vf p lf by (simp add: valid_poly_nth)
  have i: "uint (1 :: 32 word) < 8380417" by simp
  have "uint (fieldMul (smul 4193792 f ! p) 1)
        = (uint (smul 4193792 f ! p) * uint (1 :: 32 word) * 8265825) mod 8380417"
    using a i by (rule uint_fieldMul)
  also have "\<dots> = ((4193792 * uint (f ! p)) mod 8380417 * 1 * 8265825) mod 8380417"
    using p by (simp add: uint_smul_nth)
  also have "\<dots> = uint (f ! p)" using b by (intro mont_exit) simp_all
  finally have "fieldMul (smul 4193792 f ! p) 1 = f ! p"
    by (rule word32_eq_uintI)
  then show "map (\<lambda>x. fieldMul x 1) (smul 4193792 f) ! p = f ! p"
    using p by simp
qed

lemma valid_poly_iff:
  "valid_poly f \<longleftrightarrow> length f = n \<and> (\<forall>i<n. unat (f ! i) < unat q)"
  by (auto simp add: valid_poly_def list_all_length n_def q_def)

lemma unat_smul_nth:
  assumes "i < length f"
  shows "unat (smul c f ! i) = (c * unat (f ! i)) mod 8380417"
proof -
  have m: "(c * unat (f ! i)) mod 8380417 < 8380417" by simp
  have "smul c f ! i = of_nat ((c * unat (f ! i)) mod 8380417)" using assms by (simp add: smul_def)
  then show ?thesis using m by (simp add: unat_of_nat)
qed

lemma unit_poly_valid: "valid_poly ((replicate 256 0)[0 := 1])"
  by (simp add: valid_poly_def list_all_length nth_list_update)

lemma const_poly_valid: "valid_poly (replicate 256 5)"
  by (simp add: valid_poly_def list_all_length)


text \<open>
  Claim C2 (as amended). For every polynomial \<open>p\<close> of 256 coefficients in \<open>[0, q)\<close>,
  \<open>invNTT (ntt p)\<close> is \<open>p\<close> scaled by the Montgomery constant: coefficient \<open>i\<close> equals
  \<open>montR * p ! i mod q\<close> with \<open>montR = 2^32 mod q = 4193792\<close>; one Montgomery
  multiplication by 1 (\<open>fieldMul x 1\<close>) of every coefficient gives \<open>p\<close> back.
\<close>

theorem invNTT_ntt_montgomery_scaled:
  assumes "length p = n" and "\<forall>i<n. unat (p ! i) < unat q"
  shows "length (invNTT (ntt p)) = n \<and>
    (\<forall>i<n. unat (invNTT (ntt p) ! i) = (unat montR * unat (p ! i)) mod unat q) \<and>
    map (\<lambda>x. fieldMul x 1) (invNTT (ntt p)) = p"
proof -
  have v: "valid_poly p" using assms by (simp add: valid_poly_iff)
  have e: "invNTT (ntt p) = smul 4193792 p" using v by (rule invNTT_ntt_scaled)
  have l: "length p = 256" using assms(1) by (simp add: n_def)
  show ?thesis
    unfolding e using l fieldMul_one_smul[OF v]
    by (simp add: unat_smul_nth n_def q_def montR_def)
qed

theorem invNTT_ntt_montgomery_scaled_witness:
  "length (replicate 256 (5 :: fieldElement)) = n \<and>
   list_all (\<lambda>x. unat x < unat q) (replicate 256 (5 :: fieldElement)) \<and>
   unat (invNTT (ntt (replicate 256 5)) ! 7) = 4208126 \<and>
   map (\<lambda>x. fieldMul x 1) (invNTT (ntt (replicate 256 5))) = replicate 256 5"
  using invNTT_ntt_montgomery_scaled [of "replicate 256 5"]
  by (simp add: n_def q_def montR_def list_all_length)

text \<open>
  The claim C2 as written asks for \<open>invNTT (ntt p) = p\<close>. For the polynomial
  \<open>p = 1\<close> (coefficient 0 is 1, all others 0) the code returns the polynomial whose
  coefficient 0 is \<open>4193792 = 2^32 mod q\<close>.
\<close>

theorem invNTT_ntt_identity_counterexample:
  "length ((replicate 256 0)[0 := 1 :: fieldElement]) = n \<and>
   list_all (\<lambda>x. unat x < unat q) ((replicate 256 0)[0 := 1 :: fieldElement]) \<and>
   invNTT (ntt ((replicate 256 0)[0 := 1])) ! 0 = 4193792 \<and>
   ((replicate 256 0)[0 := 1 :: fieldElement]) ! 0 = 1 \<and>
   invNTT (ntt ((replicate 256 0)[0 := 1])) \<noteq> (replicate 256 0)[0 := 1]"
proof -
  have e: "invNTT (ntt ((replicate 256 0)[0 := 1])) = smul 4193792 ((replicate 256 0)[0 := 1])"
    using unit_poly_valid by (rule invNTT_ntt_scaled)
  have a: "smul 4193792 ((replicate 256 0)[0 := 1]) ! 0 = 4193792"
    by (simp add: smul_def)
  have b: "((replicate 256 0)[0 := 1 :: fieldElement]) ! 0 = 1" by simp
  have c: "smul 4193792 ((replicate 256 0)[0 := 1]) \<noteq> (replicate 256 0)[0 := 1]"
  proof
    assume "smul 4193792 ((replicate 256 0)[0 := 1]) = (replicate 256 0)[0 := 1]"
    then have "smul 4193792 ((replicate 256 0)[0 := 1]) ! 0 = ((replicate 256 0)[0 := 1 :: fieldElement]) ! 0"
      by (rule arg_cong)
    then show False by (simp only: a b) simp
  qed
  have d: "list_all (\<lambda>x. unat x < unat q) ((replicate 256 0)[0 := 1 :: fieldElement])"
    by (simp add: q_def list_all_length nth_list_update)
  show ?thesis unfolding e using a b c d by (simp add: n_def)
qed


section \<open>The challenge sampler\<close>

lemma sampleChallenge_j_le:
  assumes "sampleChallenge_j h buf offset i = Some r"
  shows "unat (fst r) \<le> i"
proof (rule sampleChallenge_j.raw_induct
         [where P = "\<lambda>h buf offset i r. unat (fst r) \<le> i", OF _ assms])
  fix f :: "shake \<Rightarrow> byte list \<Rightarrow> nat \<Rightarrow> nat \<Rightarrow> (byte \<times> shake \<times> byte list \<times> nat) option"
  fix h buf offset i ha
  assume ih: "\<And>h buf offset i y. f h buf offset i = Some y \<Longrightarrow> unat (fst y) \<le> i"
    and eq: "(let (buf1, h1, offset1) =
            if length buf \<le> offset
            then case shake_read h 136 of (b, h') \<Rightarrow> (b, h', 0)
            else (buf, h, offset);
          j = buf1 ! offset1
      in if unat j \<le> i then Some (j, h1, buf1, offset1 + 1)
         else f h1 buf1 (offset1 + 1) i) = Some ha"
  show "unat (fst ha) \<le> i"
    using eq ih by (auto simp: Let_def split: if_splits prod.splits)
qed

lemma filter_count_update:
  "k < length xs \<Longrightarrow>
   length (filter P (xs[k := v])) + (if P (xs ! k) then 1 else 0)
     = length (filter P xs) + (if P v then 1 else 0)"
proof (induction xs arbitrary: k)
  case Nil
  then show ?case by simp
next
  case (Cons a xs)
  show ?case
  proof (cases k)
    case 0
    then show ?thesis by simp
  next
    case (Suc m)
    then have "m < length xs" using Cons.prems by simp
    from Cons.IH[OF this] show ?thesis using Suc by simp
  qed
qed

lemma challenge_step:
  assumes inv: "challenge_inv tau c i" and i: "i < 256" and j: "j \<le> i"
    and v: "v = 1 \<or> v = 8380416"
  shows "challenge_inv tau ((c[i := c ! j])[j := v]) (i + 1)"
proof -
  have lc: "length c = 256" using inv by (simp add: challenge_inv_def)
  have rng: "\<forall>k<256. c ! k = 0 \<or> c ! k = 1 \<or> c ! k = 8380416"
    using inv by (simp add: challenge_inv_def list_all_length)
  have z: "\<forall>k. i \<le> k \<and> k < 256 \<longrightarrow> c ! k = 0"
    using inv by (auto simp add: challenge_inv_def list_all_iff)
  have cnt: "length (filter (\<lambda>x. x \<noteq> 0) c) + 256 = tau + i"
    using inv by (simp add: challenge_inv_def)
  have ci: "c ! i = 0" using z i by simp
  have vz: "v \<noteq> 0" using v by auto
  define c1 where "c1 = c[i := c ! j]"
  define c2 where "c2 = c1[j := v]"
  have l1: "length c1 = 256" by (simp add: c1_def lc)
  have l2: "length c2 = 256" by (simp add: c2_def l1)
  have j256: "j < 256" using i j by simp
  have e1: "length (filter (\<lambda>x. x \<noteq> 0) c1) = length (filter (\<lambda>x. x \<noteq> 0) c) + (if c ! j \<noteq> 0 then 1 else 0)"
    using filter_count_update[of i c "\<lambda>x. x \<noteq> 0" "c ! j"] i lc ci by (simp add: c1_def)
  have c1j: "c1 ! j = c ! j" using i j lc by (cases "j = i") (simp_all add: c1_def)
  have e2: "length (filter (\<lambda>x. x \<noteq> 0) c2) + (if c ! j \<noteq> 0 then 1 else 0)
            = length (filter (\<lambda>x. x \<noteq> 0) c1) + 1"
    using filter_count_update[of j c1 "\<lambda>x. x \<noteq> 0" v] j256 l1 vz c1j by (simp add: c2_def)
  have cnt2: "length (filter (\<lambda>x. x \<noteq> 0) c2) + 256 = tau + (i + 1)"
    using e1 e2 cnt by simp
  have nth2: "c2 ! k = (if k = j then v else if k = i then c ! j else c ! k)" if "k < 256" for k
    using that lc l1 by (simp add: c2_def c1_def nth_list_update)
  have rng2: "\<forall>k<256. c2 ! k = 0 \<or> c2 ! k = 1 \<or> c2 ! k = 8380416"
    using rng v j256 by (simp add: nth2)
  have z2: "\<forall>k. i + 1 \<le> k \<and> k < 256 \<longrightarrow> c2 ! k = 0"
    using z j by (simp add: nth2)
  show ?thesis
    unfolding c1_def[symmetric] c2_def[symmetric]
    using l2 rng2 z2 cnt2 by (auto simp add: challenge_inv_def list_all_length list_all_iff)
qed

lemma sampleChallenge_loop_inv:
  "sampleChallenge_loop h buf offset signs c i = Some r \<Longrightarrow> challenge_inv tau c i \<Longrightarrow> i \<le> 256
   \<Longrightarrow> challenge_inv tau r 256"
proof (induction h buf offset signs c i rule: sampleChallenge_loop.induct)
  case (1 h buf offset signs c i)
  show ?case
  proof (cases "i < 256")
    case False
    then have "i = 256" using 1 by simp
    moreover have "r = c" using 1(2) False by (subst (asm) sampleChallenge_loop.simps) (simp add: n_def)
    ultimately show ?thesis using 1(3) by simp
  next
    case True
    then have lt: "i < n" by (simp add: n_def)
    obtain j h' buf' offset' where sj: "sampleChallenge_j h buf offset i = Some (j, h', buf', offset')"
      using 1(2) lt by (subst (asm) sampleChallenge_loop.simps) (auto split: option.splits)
    have jl: "unat j \<le> i" using sampleChallenge_j_le[OF sj] by simp
    define v :: fieldElement where "v = (if signs AND 1 = 0 then 1 else q - 1)"
    have vv: "v = 1 \<or> v = 8380416" by (simp add: v_def q_def)
    have rec: "sampleChallenge_loop h' buf' offset' (drop_bit 1 signs)
                 ((c[i := c ! unat j])[unat j := v]) (i + 1) = Some r"
      using 1(2) lt sj by (subst (asm) sampleChallenge_loop.simps) (simp add: v_def)
    have st: "challenge_inv tau ((c[i := c ! unat j])[unat j := v]) (i + 1)"
      using 1(3) True jl vv by (rule challenge_step)
    show ?thesis
      using 1(1)[OF lt sj refl refl refl rec[unfolded v_def] st[unfolded v_def]] True by simp
  qed
qed

lemma sampleChallenge_j_returns:
  assumes "shake_buffered h buf offset" and "a = snd h - 136 + offset"
    and "a \<le> m" and "unat (fst h m) \<le> i"
  shows "\<exists>j h' buf' offset'. sampleChallenge_j h buf offset i = Some (j, h', buf', offset')
           \<and> shake_buffered h' buf' offset' \<and> fst h' = fst h"
  using assms
proof (induction "m - a" arbitrary: h buf offset a)
  case 0
  then have am: "a = m" by simp
  show ?case
  proof (cases "offset < 136")
    case True
    have "buf ! offset = fst h a" using 0 True by (simp add: shake_buffered_def)
    then have ok: "unat (buf ! offset) \<le> i" using 0 am by simp
    have lb: "length buf = 136" using 0 by (simp add: shake_buffered_def)
    have "shake_buffered h buf (offset + 1)" using 0 True by (simp add: shake_buffered_def)
    then show ?thesis using ok lb True
      by (subst sampleChallenge_j.simps) simp
  next
    case False
    then have o: "offset = 136" using 0 by (simp add: shake_buffered_def)
    have lb: "length buf = 136" using 0 by (simp add: shake_buffered_def)
    have a: "a = snd h" using 0 o by (simp add: shake_buffered_def)
    have ok: "unat (fst h (snd h)) \<le> i" using 0 am a by simp
    have "shake_buffered (fst h, snd h + 136) (map (\<lambda>i. fst h (snd h + i)) [0..<136]) (Suc 0)"
      by (simp add: shake_buffered_def)
    then show ?thesis using ok lb o
      by (subst sampleChallenge_j.simps) (simp add: shake_read_def)
  qed
next
  case (Suc d)
  show ?case
  proof (cases "offset < 136")
    case True
    have bo: "buf ! offset = fst h a" using Suc True by (simp add: shake_buffered_def)
    have lb: "length buf = 136" using Suc by (simp add: shake_buffered_def)
    have sb: "shake_buffered h buf (offset + 1)" using Suc True by (simp add: shake_buffered_def)
    show ?thesis
    proof (cases "unat (buf ! offset) \<le> i")
      case ok: True
      then show ?thesis using sb lb True by (subst sampleChallenge_j.simps) simp
    next
      case nok: False
      have "d = m - (a + 1)" using Suc by simp
      moreover have "a + 1 = snd h - 136 + (offset + 1)" using Suc by simp
      moreover have "a + 1 \<le> m" using Suc by simp
      ultimately have "\<exists>j h' buf' offset'. sampleChallenge_j h buf (offset + 1) i = Some (j, h', buf', offset')
           \<and> shake_buffered h' buf' offset' \<and> fst h' = fst h"
        using Suc.hyps(1)[of "a + 1" h buf "offset + 1"] sb Suc.prems(4) by blast
      then show ?thesis using nok lb True by (subst sampleChallenge_j.simps) simp
    qed
  next
    case False
    then have o: "offset = 136" using Suc by (simp add: shake_buffered_def)
    have lb: "length buf = 136" using Suc by (simp add: shake_buffered_def)
    have a: "a = snd h" using Suc o by (simp add: shake_buffered_def)
    define h1 where "h1 = (fst h, snd h + 136)"
    define buf1 where "buf1 = map (\<lambda>i. fst h (snd h + i)) [0..<136]"
    have sb: "shake_buffered h1 buf1 (Suc 0)"
      by (simp add: shake_buffered_def h1_def buf1_def)
    have b0: "buf1 ! 0 = fst h (snd h)" by (simp add: buf1_def)
    have un: "sampleChallenge_j h buf offset i =
        (if unat (buf1 ! 0) \<le> i then Some (buf1 ! 0, h1, buf1, Suc 0)
         else sampleChallenge_j h1 buf1 (Suc 0) i)"
      using lb o by (subst sampleChallenge_j.simps) (simp add: shake_read_def h1_def buf1_def)
    show ?thesis
    proof (cases "unat (buf1 ! 0) \<le> i")
      case ok: True
      then show ?thesis using sb un by (simp add: h1_def)
    next
      case nok: False
      have "d = m - (a + 1)" using Suc by simp
      moreover have "a + 1 = snd h1 - 136 + Suc 0" using a by (simp add: h1_def)
      moreover have "a + 1 \<le> m" using Suc by simp
      moreover have "unat (fst h1 m) \<le> i" using Suc.prems(4) by (simp add: h1_def)
      ultimately have "\<exists>j h' buf' offset'. sampleChallenge_j h1 buf1 (Suc 0) i = Some (j, h', buf', offset')
           \<and> shake_buffered h' buf' offset' \<and> fst h' = fst h1"
        using Suc.hyps(1)[of "a + 1" h1 buf1 "Suc 0"] sb by blast
      then show ?thesis using nok un by (simp add: h1_def)
    qed
  qed
qed

lemma sampleChallenge_loop_returns:
  assumes "shake_buffered h buf offset" and "\<forall>k. \<exists>m\<ge>k. unat (fst h m) \<le> b" and "b \<le> i"
  shows "\<exists>r. sampleChallenge_loop h buf offset signs c i = Some r"
  using assms
proof (induction "256 - i" arbitrary: h buf offset signs c i)
  case 0
  then show ?case by (subst sampleChallenge_loop.simps) (simp add: n_def)
next
  case (Suc x)
  then have lt: "i < 256" by simp
  obtain m where m: "snd h - 136 + offset \<le> m" "unat (fst h m) \<le> b"
    using Suc.prems(2) by blast
  then have mi: "unat (fst h m) \<le> i" using Suc.prems(3) by simp
  obtain j h' buf' offset' where sj: "sampleChallenge_j h buf offset i = Some (j, h', buf', offset')"
    and sb: "shake_buffered h' buf' offset'" and fh: "fst h' = fst h"
    using sampleChallenge_j_returns[OF Suc.prems(1) refl m(1) mi] by blast
  have "x = 256 - (i + 1)" using Suc by simp
  moreover have "\<forall>k. \<exists>m\<ge>k. unat (fst h' m) \<le> b" using Suc.prems(2) fh by simp
  moreover have "b \<le> i + 1" using Suc.prems(3) by simp
  ultimately have "\<exists>r. sampleChallenge_loop h' buf' offset' (drop_bit 1 signs)
       ((c[i := c ! unat j])[unat j := (if signs AND 1 = 0 then 1 else q - 1)]) (i + 1) = Some r"
    using Suc.hyps(1)[of "i + 1" h' buf' offset'] sb by blast
  then show ?case using lt sj by (subst sampleChallenge_loop.simps) (simp add: n_def)
qed

lemma challenge_inv_init: "tau \<le> 256 \<Longrightarrow> challenge_inv tau (replicate 256 0) (256 - tau)"
  by (simp add: challenge_inv_def list_all_length)

lemma sampleChallenge_unfold:
  "tau \<le> 256 \<Longrightarrow> sampleChallenge H seed tau =
     sampleChallenge_loop (H seed, 136) (map (H seed) [0..<136]) 8
       (sampleChallenge_signs (map (H seed) [0..<136])) (replicate 256 0) (256 - tau)"
  by (simp add: sampleChallenge_def shake_read_def n_def Let_def)

lemma sampleChallenge_sound:
  assumes "tau \<le> 256" and "sampleChallenge H seed tau = Some c"
  shows "challenge_inv tau c 256"
  using assms(2) unfolding sampleChallenge_unfold[OF assms(1)]
  by (rule sampleChallenge_loop_inv) (simp_all add: challenge_inv_init[OF assms(1)])

lemma sampleChallenge_returns:
  assumes "tau \<le> 256" and "\<forall>k. \<exists>m\<ge>k. unat (H seed m) \<le> 256 - tau"
  shows "\<exists>c. sampleChallenge H seed tau = Some c"
  unfolding sampleChallenge_unfold[OF assms(1)]
  by (rule sampleChallenge_loop_returns[where b = "256 - tau"])
     (simp_all add: shake_buffered_def assms(2))


text \<open>
  Claim C5. For every seed and every \<open>tau\<close> in \<open>{39, 49, 60}\<close>, a polynomial returned by
  \<open>sampleChallenge seed tau\<close> has 256 coefficients, exactly \<open>tau\<close> of them non-zero, and
  every coefficient is 0, 1 or \<open>q - 1\<close>. The rejection loop reads the SHAKE256 stream of the
  seed until it finds a byte that is at most \<open>i\<close>: \<open>sampleChallenge\<close> returns whenever
  the stream holds bytes that are at most \<open>n - tau\<close> at arbitrarily late positions.
\<close>

theorem sampleChallenge_tau_nonzero:
  assumes "tau \<in> {39, 49, 60}"
  shows "(\<forall>c. sampleChallenge shake256 seed tau = Some c \<longrightarrow>
            length c = n \<and> length (filter (\<lambda>x. x \<noteq> 0) c) = tau \<and>
            list_all (\<lambda>x. x = 0 \<or> x = 1 \<or> x = q - 1) c) \<and>
         ((\<forall>k. \<exists>m\<ge>k. unat (shake256 seed m) \<le> n - tau) \<longrightarrow>
            (\<exists>c. sampleChallenge shake256 seed tau = Some c))"
proof -
  have t: "tau \<le> 256" using assms by auto
  have "length c = n \<and> length (filter (\<lambda>x. x \<noteq> 0) c) = tau \<and>
        list_all (\<lambda>x. x = 0 \<or> x = 1 \<or> x = q - 1) c"
    if "sampleChallenge shake256 seed tau = Some c" for c
    using sampleChallenge_sound[OF t that] by (simp add: challenge_inv_def n_def q_def)
  moreover have "\<exists>c. sampleChallenge shake256 seed tau = Some c"
    if "\<forall>k. \<exists>m\<ge>k. unat (shake256 seed m) \<le> n - tau"
    using sampleChallenge_returns[OF t] that by (simp add: n_def)
  ultimately show ?thesis by blast
qed

theorem sampleChallenge_tau_nonzero_witness:
  "\<exists>c. sampleChallenge (\<lambda>seed k. 0) [] 39 = Some c \<and> length c = n \<and>
       length (filter (\<lambda>x. x \<noteq> 0) c) = 39 \<and> list_all (\<lambda>x. x = 0 \<or> x = 1 \<or> x = q - 1) c"
  using sampleChallenge_tau_nonzero [of 39 "\<lambda>seed k. 0" "[]"] by auto


section \<open>Verification never panics\<close>

lemma unpackHint_row_total:
  assumes "limit \<le> length b" "prev \<le> idx" "idx \<le> limit"
  shows "\<exists>ok idx' hints'. unpackHint_row b i prev limit idx hints = Inr (ok, idx', hints')
           \<and> (ok \<longleftrightarrow> (\<forall>p. idx \<le> p \<and> p < limit \<longrightarrow> (prev < p \<longrightarrow> b ! (p - 1) < b ! p)))
           \<and> (ok \<longrightarrow> idx' = limit)"
  using assms
proof (induction "limit - idx" arbitrary: idx hints)
  case 0
  then show ?case by (subst unpackHint_row.simps) auto
next
  case (Suc m)
  then have lt: "idx < limit" by simp
  then have lb: "\<not> length b \<le> idx" using Suc.prems by simp
  show ?case
  proof (cases "prev < idx \<and> b ! idx \<le> b ! (idx - 1)")
    case True
    then have "\<not> (\<forall>p. idx \<le> p \<and> p < limit \<longrightarrow> (prev < p \<longrightarrow> b ! (p - 1) < b ! p))"
      using lt by (auto intro!: exI[of _ idx])
    then show ?thesis using True lt lb
      by (subst unpackHint_row.simps) (simp add: Let_def)
  next
    case False
    define hints1 where "hints1 = hints[i := (hints ! i)[unat (b ! idx) := 1]]"
    have un: "unpackHint_row b i prev limit idx hints = unpackHint_row b i prev limit (idx + 1) hints1"
      using False lt lb by (subst unpackHint_row.simps) (auto simp add: Let_def hints1_def)
    have "m = limit - (idx + 1)" using Suc by simp
    then obtain ok idx' hints' where
      r: "unpackHint_row b i prev limit (idx + 1) hints1 = Inr (ok, idx', hints')"
      and okk: "ok \<longleftrightarrow> (\<forall>p. idx + 1 \<le> p \<and> p < limit \<longrightarrow> (prev < p \<longrightarrow> b ! (p - 1) < b ! p))"
      and ii: "ok \<longrightarrow> idx' = limit"
      using Suc.hyps(1)[of "idx + 1" hints1] Suc.prems lt by auto
    have here: "prev < idx \<longrightarrow> b ! (idx - 1) < b ! idx" using False by auto
    have "(\<forall>p. idx \<le> p \<and> p < limit \<longrightarrow> (prev < p \<longrightarrow> b ! (p - 1) < b ! p))
          \<longleftrightarrow> (\<forall>p. idx + 1 \<le> p \<and> p < limit \<longrightarrow> (prev < p \<longrightarrow> b ! (p - 1) < b ! p))"
    proof
      assume "\<forall>p. idx \<le> p \<and> p < limit \<longrightarrow> (prev < p \<longrightarrow> b ! (p - 1) < b ! p)"
      then show "\<forall>p. idx + 1 \<le> p \<and> p < limit \<longrightarrow> (prev < p \<longrightarrow> b ! (p - 1) < b ! p)" by simp
    next
      assume a: "\<forall>p. idx + 1 \<le> p \<and> p < limit \<longrightarrow> (prev < p \<longrightarrow> b ! (p - 1) < b ! p)"
      show "\<forall>p. idx \<le> p \<and> p < limit \<longrightarrow> (prev < p \<longrightarrow> b ! (p - 1) < b ! p)"
      proof (intro allI impI)
        fix p assume p: "idx \<le> p \<and> p < limit" and pp: "prev < p"
        show "b ! (p - 1) < b ! p"
        proof (cases "p = idx")
          case True
          then show ?thesis using here pp by simp
        next
          case False
          then have "idx + 1 \<le> p" using p by simp
          then show ?thesis using a p pp by blast
        qed
      qed
    qed
    then show ?thesis using r okk ii un by simp
  qed
qed

lemma unpackHint_rest_total:
  assumes "omega \<le> length b"
  shows "unpackHint_rest b omega idx = Inr (\<forall>p. idx \<le> p \<and> p < omega \<longrightarrow> b ! p = 0)"
  using assms
proof (induction "omega - idx" arbitrary: idx)
  case 0
  then show ?case by (subst unpackHint_rest.simps) auto
next
  case (Suc m)
  then have lt: "idx < omega" by simp
  then have lb: "\<not> length b \<le> idx" using Suc.prems by simp
  have ih: "unpackHint_rest b omega (idx + 1) = Inr (\<forall>p. idx + 1 \<le> p \<and> p < omega \<longrightarrow> b ! p = 0)"
    using Suc by (intro Suc.hyps(1)) simp_all
  show ?case
  proof (cases "b ! idx = 0")
    case False
    then have "\<not> (\<forall>p. idx \<le> p \<and> p < omega \<longrightarrow> b ! p = 0)" using lt by (auto intro!: exI[of _ idx])
    then show ?thesis using False lt lb by (subst unpackHint_rest.simps) simp
  next
    case True
    have "(\<forall>p. idx \<le> p \<and> p < omega \<longrightarrow> b ! p = 0) \<longleftrightarrow> (\<forall>p. idx + 1 \<le> p \<and> p < omega \<longrightarrow> b ! p = 0)"
    proof
      assume "\<forall>p. idx \<le> p \<and> p < omega \<longrightarrow> b ! p = 0"
      then show "\<forall>p. idx + 1 \<le> p \<and> p < omega \<longrightarrow> b ! p = 0" by simp
    next
      assume a: "\<forall>p. idx + 1 \<le> p \<and> p < omega \<longrightarrow> b ! p = 0"
      show "\<forall>p. idx \<le> p \<and> p < omega \<longrightarrow> b ! p = 0"
      proof (intro allI impI)
        fix p assume p: "idx \<le> p \<and> p < omega"
        show "b ! p = 0"
        proof (cases "p = idx")
          case True
          then show ?thesis using \<open>b ! idx = 0\<close> by simp
        next
          case False
          then have "idx + 1 \<le> p" using p by simp
          then show ?thesis using a p by blast
        qed
      qed
    qed
    then show ?thesis using True lt lb ih by (subst unpackHint_rest.simps) simp
  qed
qed

lemma unpackHint_rows_total:
  assumes "length b = omega + k" "i \<le> k" "idx = hint_count omega b i" "idx \<le> omega"
  shows "\<exists>ok idx' hints'. unpackHint_rows b omega k i idx hints = Inr (ok, idx', hints')
           \<and> (ok \<longleftrightarrow> (\<forall>r. i \<le> r \<and> r < k \<longrightarrow> hint_row_ok omega b r))
           \<and> (ok \<longrightarrow> idx' = hint_count omega b k \<and> idx' \<le> omega)"
  using assms
proof (induction "k - i" arbitrary: i idx hints)
  case 0
  then show ?case by (subst unpackHint_rows.simps) auto
next
  case (Suc m)
  then have lt: "i < k" by simp
  then have lb: "\<not> length b \<le> omega + i" using Suc.prems by simp
  define limit where "limit = unat (b ! (omega + i))"
  have lim: "limit = hint_count omega b (i + 1)" by (simp add: limit_def hint_count_def)
  show ?case
  proof (cases "limit < idx \<or> omega < limit")
    case True
    then have "\<not> hint_row_ok omega b i"
      using Suc.prems(3) lim by (auto simp add: hint_row_ok_def)
    then have "\<not> (\<forall>r. i \<le> r \<and> r < k \<longrightarrow> hint_row_ok omega b r)" using lt by auto
    then show ?thesis using True lt lb
      by (subst unpackHint_rows.simps) (auto simp add: Let_def limit_def[symmetric])
  next
    case False
    then have c: "idx \<le> limit" "limit \<le> omega" by simp_all
    then have ll: "limit \<le> length b" using Suc.prems(1) by simp
    obtain ok idx' hints' where
      r: "unpackHint_row b i idx limit idx hints = Inr (ok, idx', hints')"
      and okk: "ok \<longleftrightarrow> (\<forall>p. idx \<le> p \<and> p < limit \<longrightarrow> (idx < p \<longrightarrow> b ! (p - 1) < b ! p))"
      and ii: "ok \<longrightarrow> idx' = limit"
      using unpackHint_row_total[OF ll order_refl c(1), of i hints] by blast
    have rowok: "hint_row_ok omega b i \<longleftrightarrow> ok"
      using c okk Suc.prems(3) lim by (auto simp add: hint_row_ok_def list_all_iff)
    show ?thesis
    proof (cases ok)
      case False
      then have "\<not> (\<forall>r. i \<le> r \<and> r < k \<longrightarrow> hint_row_ok omega b r)" using lt rowok by auto
      then show ?thesis using False \<open>\<not> (limit < idx \<or> omega < limit)\<close> lt lb r
        by (subst unpackHint_rows.simps) (auto simp add: Let_def limit_def[symmetric])
    next
      case True
      then have i': "idx' = hint_count omega b (i + 1)" using ii lim by simp
      have un: "unpackHint_rows b omega k i idx hints = unpackHint_rows b omega k (i + 1) idx' hints'"
        using True \<open>\<not> (limit < idx \<or> omega < limit)\<close> lt lb r
        by (subst unpackHint_rows.simps) (simp add: Let_def limit_def[symmetric])
      have "m = k - (i + 1)" using Suc by simp
      moreover have "i + 1 \<le> k" using lt by simp
      moreover have "idx' \<le> omega" using i' lim c by simp
      ultimately obtain ok2 idx2 hints2 where
        r2: "unpackHint_rows b omega k (i + 1) idx' hints' = Inr (ok2, idx2, hints2)"
        and ok2: "ok2 \<longleftrightarrow> (\<forall>r. i + 1 \<le> r \<and> r < k \<longrightarrow> hint_row_ok omega b r)"
        and i2: "ok2 \<longrightarrow> idx2 = hint_count omega b k \<and> idx2 \<le> omega"
        using Suc.hyps(1)[of "i + 1" idx' hints'] Suc.prems(1) i' by blast
      have "(\<forall>r. i \<le> r \<and> r < k \<longrightarrow> hint_row_ok omega b r)
            \<longleftrightarrow> (\<forall>r. i + 1 \<le> r \<and> r < k \<longrightarrow> hint_row_ok omega b r)"
      proof
        assume "\<forall>r. i \<le> r \<and> r < k \<longrightarrow> hint_row_ok omega b r"
        then show "\<forall>r. i + 1 \<le> r \<and> r < k \<longrightarrow> hint_row_ok omega b r" by simp
      next
        assume a: "\<forall>r. i + 1 \<le> r \<and> r < k \<longrightarrow> hint_row_ok omega b r"
        show "\<forall>r. i \<le> r \<and> r < k \<longrightarrow> hint_row_ok omega b r"
        proof (intro allI impI)
          fix r assume rr: "i \<le> r \<and> r < k"
          show "hint_row_ok omega b r"
          proof (cases "r = i")
            case True
            then show ?thesis using rowok \<open>ok\<close> by simp
          next
            case False
            then have "i + 1 \<le> r" using rr by simp
            then show ?thesis using a rr by blast
          qed
        qed
      qed
      then show ?thesis using un r2 ok2 i2 by auto
    qed
  qed
qed

lemma hint_encoding_ok_rows:
  "hint_encoding_ok omega k b \<longleftrightarrow>
     (\<forall>r. r < k \<longrightarrow> hint_row_ok omega b r) \<and>
     (\<forall>p. hint_count omega b k \<le> p \<and> p < omega \<longrightarrow> b ! p = 0)"
  by (auto simp add: hint_encoding_ok_def hint_row_ok_def list_all_iff)

lemma unpackHint_total:
  assumes "length b = omega + length hints"
  shows "\<exists>ok hints'. unpackHint b hints omega = Inr (ok, hints')
           \<and> (ok \<longleftrightarrow> hint_encoding_ok omega (length hints) b)"
proof -
  obtain ok idx' hints' where
    r: "unpackHint_rows b omega (length hints) 0 0 hints = Inr (ok, idx', hints')"
    and okk: "ok \<longleftrightarrow> (\<forall>r. 0 \<le> r \<and> r < length hints \<longrightarrow> hint_row_ok omega b r)"
    and ii: "ok \<longrightarrow> idx' = hint_count omega b (length hints) \<and> idx' \<le> omega"
    using unpackHint_rows_total[OF assms, of 0 0 hints] by (auto simp add: hint_count_def)
  have rest: "unpackHint_rest b omega idx' = Inr (\<forall>p. idx' \<le> p \<and> p < omega \<longrightarrow> b ! p = 0)"
    using assms by (intro unpackHint_rest_total) simp
  show ?thesis
  proof (cases ok)
    case False
    then have "\<not> hint_encoding_ok omega (length hints) b"
      using okk by (simp add: hint_encoding_ok_rows)
    then show ?thesis using False r by (auto simp add: unpackHint_def)
  next
    case True
    then have "hint_encoding_ok omega (length hints) b
               \<longleftrightarrow> (\<forall>p. idx' \<le> p \<and> p < omega \<longrightarrow> b ! p = 0)"
      using okk ii by (simp add: hint_encoding_ok_rows)
    then show ?thesis using True r rest by (simp add: unpackHint_def)
  qed
qed

lemma unpackZ17Sig_loop_total:
  assumes "g \<le> 64" "9 * (64 - g) \<le> length b"
  shows "\<exists>f'. unpackZ17Sig_loop (4 * g) b f = Inr f' \<and> length f' = length f"
  using assms
proof (induction "64 - g" arbitrary: g b f)
  case 0
  then have "g = 64" by simp
  then show ?case by (subst unpackZ17Sig_loop.simps) (simp add: n_def)
next
  case (Suc m)
  then have lt: "4 * g < n" by (simp add: n_def)
  have lb: "\<not> length b < 9" using Suc by simp
  have "m = 64 - (g + 1)" using Suc by simp
  moreover have "g + 1 \<le> 64" using Suc by simp
  moreover have "9 * (64 - (g + 1)) \<le> length (drop 9 b)" using Suc by simp
  ultimately have ih: "\<exists>f'. unpackZ17Sig_loop (4 * g + 4) (drop 9 b) f1 = Inr f' \<and> length f' = length f1"
    for f1 using Suc.hyps(1)[of "g + 1" "drop 9 b" f1] by (simp add: algebra_simps)
  have "\<exists>f1. length f1 = length f \<and>
          unpackZ17Sig_loop (4 * g) b f = unpackZ17Sig_loop (4 * g + 4) (drop 9 b) f1"
    apply (subst unpackZ17Sig_loop.simps)
    using lt lb apply (simp only: if_True if_False Let_def)
    apply (rule exI, rule conjI[rotated], rule refl)
    apply simp
    done
  then show ?case using ih by metis
qed

lemma unpackZ17Sig_total:
  "length b = 576 \<Longrightarrow> \<exists>f. unpackZ17Sig b = Inr f \<and> length f = n"
  using unpackZ17Sig_loop_total[of 0 b "replicate n 0"] by (simp add: unpackZ17Sig_def)

lemma verifyInternal44_z_total:
  assumes "i \<le> 4" "offset = 32 + 576 * i" "length sig = 2420"
  shows "\<exists>z'. verifyInternal44_z sig i offset z = Inr (z', 2336)"
  using assms
proof (induction "4 - i" arbitrary: i offset z)
  case 0
  then have "i = 4" by simp
  then show ?case using 0 by (subst verifyInternal44_z.simps) (simp add: l44_def)
next
  case (Suc m)
  then have lt: "i < l44" by (simp add: l44_def)
  have sl: "slice sig offset (offset + encodingSize18) = Inr (take 576 (drop offset sig))"
    using Suc by (simp add: slice_def encodingSize18_def)
  have "length (take 576 (drop offset sig)) = 576" using Suc by simp
  then obtain f where f: "unpackZ17Sig (take 576 (drop offset sig)) = Inr f"
    using unpackZ17Sig_total by blast
  have "m = 4 - (i + 1)" using Suc by simp
  moreover have "i + 1 \<le> 4" using Suc by simp
  moreover have "offset + 576 = 32 + 576 * (i + 1)" using Suc by simp
  ultimately have "\<exists>z'. verifyInternal44_z sig (i + 1) (offset + 576) (z[i := f]) = Inr (z', 2336)"
    using Suc.hyps(1)[of "i + 1" "offset + 576" "z[i := f]"] Suc.prems(3) by blast
  then show ?case
    using lt sl f by (subst verifyInternal44_z.simps) (simp add: encodingSize18_def)
qed

lemma verifyInternal44_cases:
  assumes "length sig = 2420"
  shows "\<exists>z ok hints.
     verifyInternal44_z sig 0 32 (replicate l44 (replicate n 0)) = Inr (z, 2336) \<and>
     unpackHint (drop 2336 sig) (replicate k44 (replicate n 0)) omega80 = Inr (ok, hints) \<and>
     (ok \<longleftrightarrow> hint_encoding_ok omega80 k44 (drop 2336 sig)) \<and>
     verifyInternal44 shake256 pk sig mPrime =
       (if gamma1Pow17 - beta44 \<le> vectorInfinityNorm z then Some (Inr False)
        else if \<not> ok then Some (Inr False)
        else (case sampleChallenge shake256 (take 32 sig) tau39 of
                None \<Rightarrow> None
              | Some c \<Rightarrow>
                 let mu = map (shake256 (pk44_tr pk @ mPrime)) [0..<64];
                     cNTT = ntt c;
                     zNTT = map ntt z;
                     t1NTT = map (\<lambda>t1. ntt (map (\<lambda>x. push_bit d x) t1)) (pk44_t1 pk);
                     w1 = map (verifyInternal44_w1 pk cNTT zNTT t1NTT hints) [0..<k44];
                     cTildeCheck = map (shake256 (mu @ concat (map packW1_6 w1))) [0..<32];
                     diff = foldl (\<lambda>diff i. diff OR (take 32 sig ! i XOR cTildeCheck ! i)) (0 :: byte)
                              [0..<length (take 32 sig)]
                 in Some (Inr (diff = 0))))"
proof -
  obtain z where z: "verifyInternal44_z sig 0 32 (replicate l44 (replicate n 0)) = Inr (z, 2336)"
    using verifyInternal44_z_total[of 0 32 sig] assms by auto
  have "length (drop 2336 sig) = omega80 + length (replicate k44 (replicate n (0 :: fieldElement)))"
    using assms by (simp add: omega80_def k44_def)
  then obtain ok hints where
    h: "unpackHint (drop 2336 sig) (replicate k44 (replicate n 0)) omega80 = Inr (ok, hints)"
    and okk: "ok \<longleftrightarrow> hint_encoding_ok omega80 k44 (drop 2336 sig)"
    using unpackHint_total[of "drop 2336 sig" omega80 "replicate k44 (replicate n 0)"] by auto
  have s1: "slice sig 0 32 = Inr (take 32 sig)" using assms by (simp add: slice_def)
  have s2: "slice sig 2336 (length sig) = Inr (drop 2336 sig)" using assms by (simp add: slice_def)
  show ?thesis
    using z h okk by (simp add: verifyInternal44_def s1 s2 Let_def split: option.split)
qed

lemma Verify44_unfold:
  assumes "length sig = 2420" "length ctx \<le> 255"
  shows "Verify44 shake256 pk sig message ctx =
           verifyInternal44 shake256 pk sig ([0, of_nat (length ctx)] @ ctx @ message)"
  using assms by (simp add: Verify44_def SignatureSize44_def)

lemma Verify44_result:
  "(\<exists>r. Verify44 shake256 pk sig message ctx = Some (Inr r)) \<or>
   (Verify44 shake256 pk sig message ctx = None \<and>
    sampleChallenge shake256 (take 32 sig) tau39 = None)"
proof (cases "length sig = 2420 \<and> length ctx \<le> 255")
  case False
  then show ?thesis by (auto simp add: Verify44_def SignatureSize44_def)
next
  case True
  then have l: "length sig = 2420" and c: "length ctx \<le> 255" by simp_all
  obtain z ok hints where
    v: "verifyInternal44 shake256 pk sig ([0, of_nat (length ctx)] @ ctx @ message) =
       (if gamma1Pow17 - beta44 \<le> vectorInfinityNorm z then Some (Inr False)
        else if \<not> ok then Some (Inr False)
        else (case sampleChallenge shake256 (take 32 sig) tau39 of
                None \<Rightarrow> None
              | Some c \<Rightarrow>
                 let mu = map (shake256 (pk44_tr pk @ ([0, of_nat (length ctx)] @ ctx @ message))) [0..<64];
                     cNTT = ntt c;
                     zNTT = map ntt z;
                     t1NTT = map (\<lambda>t1. ntt (map (\<lambda>x. push_bit d x) t1)) (pk44_t1 pk);
                     w1 = map (verifyInternal44_w1 pk cNTT zNTT t1NTT hints) [0..<k44];
                     cTildeCheck = map (shake256 (mu @ concat (map packW1_6 w1))) [0..<32];
                     diff = foldl (\<lambda>diff i. diff OR (take 32 sig ! i XOR cTildeCheck ! i)) (0 :: byte)
                              [0..<length (take 32 sig)]
                 in Some (Inr (diff = 0))))"
    using verifyInternal44_cases[OF l, of shake256 pk "[0, of_nat (length ctx)] @ ctx @ message"]
    by blast
  show ?thesis
    unfolding Verify44_unfold[OF l c] v
    by (cases "sampleChallenge shake256 (take 32 sig) tau39") (auto simp add: Let_def)
qed

lemma Verify44_malformed_hint:
  assumes l: "length sig = 2420" and c: "length ctx \<le> 255"
    and h: "\<not> hint_encoding_ok omega80 k44 (drop 2336 sig)"
  shows "Verify44 shake256 pk sig message ctx = Some (Inr False)"
proof -
  obtain z ok hints where
    okk: "ok \<longleftrightarrow> hint_encoding_ok omega80 k44 (drop 2336 sig)" and
    v: "verifyInternal44 shake256 pk sig ([0, of_nat (length ctx)] @ ctx @ message) =
       (if gamma1Pow17 - beta44 \<le> vectorInfinityNorm z then Some (Inr False)
        else if \<not> ok then Some (Inr False)
        else (case sampleChallenge shake256 (take 32 sig) tau39 of
                None \<Rightarrow> None
              | Some c \<Rightarrow>
                 let mu = map (shake256 (pk44_tr pk @ ([0, of_nat (length ctx)] @ ctx @ message))) [0..<64];
                     cNTT = ntt c;
                     zNTT = map ntt z;
                     t1NTT = map (\<lambda>t1. ntt (map (\<lambda>x. push_bit d x) t1)) (pk44_t1 pk);
                     w1 = map (verifyInternal44_w1 pk cNTT zNTT t1NTT hints) [0..<k44];
                     cTildeCheck = map (shake256 (mu @ concat (map packW1_6 w1))) [0..<32];
                     diff = foldl (\<lambda>diff i. diff OR (take 32 sig ! i XOR cTildeCheck ! i)) (0 :: byte)
                              [0..<length (take 32 sig)]
                 in Some (Inr (diff = 0))))"
    using verifyInternal44_cases[OF l, of shake256 pk "[0, of_nat (length ctx)] @ ctx @ message"]
    by blast
  have "\<not> ok" using okk h by simp
  then show ?thesis unfolding Verify44_unfold[OF l c] v by simp
qed


text \<open>
  Claim C9. \<open>Verify\<close> of ML-DSA-44 never panics: for every key, signature, message and
  context its result is not an error. It returns \<open>false\<close> whenever the signature length
  differs from \<open>SignatureSize44\<close>, or the context is longer than 255 bytes, or the hint
  bytes (the last \<open>omega80 + k44\<close> bytes of the signature) violate the rules of the encoding
  (\<open>hint_encoding_ok\<close>). The only loop that can fail to end is the rejection loop of
  \<open>sampleChallenge\<close> on the first 32 bytes of the signature: \<open>Verify\<close> returns a boolean
  whenever that call returns, in particular whenever the SHAKE256 stream of these bytes holds
  bytes that are at most \<open>n - tau39\<close> at arbitrarily late positions.
\<close>

theorem Verify44_never_panics:
  "Verify44 shake256 pk sig message ctx \<noteq> Some (Inl e) \<and>
   (length sig \<noteq> SignatureSize44 \<or> 255 < length ctx \<or>
      \<not> hint_encoding_ok omega80 k44 (drop (SignatureSize44 - (omega80 + k44)) sig)
    \<longrightarrow> Verify44 shake256 pk sig message ctx = Some (Inr False)) \<and>
   ((\<forall>k. \<exists>m\<ge>k. unat (shake256 (take 32 sig) m) \<le> n - tau39)
    \<longrightarrow> (\<exists>r. Verify44 shake256 pk sig message ctx = Some (Inr r)))"
proof (intro conjI impI)
  show "Verify44 shake256 pk sig message ctx \<noteq> Some (Inl e)"
    using Verify44_result[of shake256 pk sig message ctx] by auto
next
  assume a: "length sig \<noteq> SignatureSize44 \<or> 255 < length ctx \<or>
      \<not> hint_encoding_ok omega80 k44 (drop (SignatureSize44 - (omega80 + k44)) sig)"
  show "Verify44 shake256 pk sig message ctx = Some (Inr False)"
  proof (cases "length sig = 2420 \<and> length ctx \<le> 255")
    case False
    then show ?thesis by (auto simp add: Verify44_def SignatureSize44_def)
  next
    case True
    then have "\<not> hint_encoding_ok omega80 k44 (drop 2336 sig)"
      using a by (simp add: SignatureSize44_def omega80_def k44_def)
    then show ?thesis using True by (intro Verify44_malformed_hint) simp_all
  qed
next
  assume s: "\<forall>k. \<exists>m\<ge>k. unat (shake256 (take 32 sig) m) \<le> n - tau39"
  have "\<exists>c. sampleChallenge shake256 (take 32 sig) tau39 = Some c"
    using s by (intro sampleChallenge_returns) (simp_all add: tau39_def n_def)
  then show "\<exists>r. Verify44 shake256 pk sig message ctx = Some (Inr r)"
    using Verify44_result[of shake256 pk sig message ctx] by auto
qed

theorem Verify44_never_panics_witness:
  "Verify44 (\<lambda>seed k. 0) \<lparr>pk44_rho = replicate 32 0, pk44_t1 = replicate 4 (replicate 256 0),
       pk44_tr = replicate 64 0, pk44_a = replicate 16 (replicate 256 0)\<rparr>
     (replicate 2419 0) [] [] = Some (Inr False) \<and>
   (\<exists>r. Verify44 (\<lambda>seed k. 0) \<lparr>pk44_rho = replicate 32 0, pk44_t1 = replicate 4 (replicate 256 0),
       pk44_tr = replicate 64 0, pk44_a = replicate 16 (replicate 256 0)\<rparr>
     (replicate 2420 0) [] [] = Some (Inr r))"
  using Verify44_never_panics [of "\<lambda>seed k. 0" "\<lparr>pk44_rho = replicate 32 0, pk44_t1 = replicate 4 (replicate 256 0),
       pk44_tr = replicate 64 0, pk44_a = replicate 16 (replicate 256 0)\<rparr>" "replicate 2419 0" "[]" "[]"]
    Verify44_never_panics [of "\<lambda>seed k. 0" "\<lparr>pk44_rho = replicate 32 0, pk44_t1 = replicate 4 (replicate 256 0),
       pk44_tr = replicate 64 0, pk44_a = replicate 16 (replicate 256 0)\<rparr>" "replicate 2420 0" "[]" "[]"]
  by (auto simp add: SignatureSize44_def)


end
